theory Spec2Isabelle
  imports Main "HOL-Library.Word" "HOL-Library.Monad_Syntax"
begin

unbundle bit_operations_syntax

section \<open>Go strings, bytes and runes\<close>

text \<open>
  A Go \<^verbatim>\<open>string\<close> is a sequence of bytes: it is modelled as a \<^typ>\<open>string\<close>
  (a list of 8-bit \<^typ>\<open>char\<close>), and \<^verbatim>\<open>len(s)\<close> is \<^term>\<open>length s\<close>.
  A \<^verbatim>\<open>rune\<close> and an \<^verbatim>\<open>int\<close> are modelled as \<^typ>\<open>int\<close>; the values
  of this program stay far away from the limits of the machine integers.
  A Go run-time panic (an index or a slice bound out of range, a negative count
  given to \<^verbatim>\<open>Grow\<close>) is the value \<^term>\<open>None\<close> of the operation that would
  raise it.
\<close>

type_synonym rune = int

definition byte_val :: "char \<Rightarrow> nat" where
  "byte_val c = of_char c"

definition rune_of_byte :: "char \<Rightarrow> rune" where
  "rune_of_byte c = int (byte_val c)"

definition byte_of :: "int \<Rightarrow> char" where
  "byte_of n = char_of (nat n)"

definition RuneError :: rune where
  "RuneError = 65533"

text \<open>\<^verbatim>\<open>utf8.AppendRune\<close>, which \<^verbatim>\<open>strings.Builder.WriteRune\<close> and
  \<^verbatim>\<open>bytes.Buffer.WriteRune\<close> use: the UTF-8 encoding of a rune, and that of
  U+FFFD for a rune that is negative, a surrogate half or beyond U+10FFFF.\<close>

definition AppendRune :: "rune \<Rightarrow> string" where
  "AppendRune r =
     (if 0 \<le> r \<and> r \<le> 127 then [byte_of r]
      else if 0 \<le> r \<and> r \<le> 2047 then [byte_of (192 + r div 64), byte_of (128 + r mod 64)]
      else if r < 0 \<or> 1114111 < r \<or> (55296 \<le> r \<and> r \<le> 57343)
        then [byte_of 239, byte_of 191, byte_of 189]
      else if r \<le> 65535
        then [byte_of (224 + r div 4096), byte_of (128 + (r div 64) mod 64),
              byte_of (128 + r mod 64)]
      else [byte_of (240 + r div 262144), byte_of (128 + (r div 4096) mod 64),
            byte_of (128 + (r div 64) mod 64), byte_of (128 + r mod 64)])"

text \<open>\<^verbatim>\<open>utf8.RuneLen\<close>: the number of bytes of that encoding, and -1 for a rune
  that has none.\<close>

definition RuneLen :: "rune \<Rightarrow> int" where
  "RuneLen r =
     (if r < 0 then - 1
      else if r \<le> 127 then 1
      else if r \<le> 2047 then 2
      else if 55296 \<le> r \<and> r \<le> 57343 then - 1
      else if r \<le> 65535 then 3
      else if r \<le> 1114111 then 4
      else - 1)"

definition in_bytes :: "nat \<Rightarrow> nat \<Rightarrow> char \<Rightarrow> bool" where
  "in_bytes lo hi c = (lo \<le> byte_val c \<and> byte_val c \<le> hi)"

text \<open>\<^verbatim>\<open>utf8.DecodeRuneInString\<close>: the first rune of a string and the number of
  bytes it takes. A byte that starts no well-formed encoding is the rune U+FFFD of
  width 1.\<close>

fun DecodeRuneInString :: "string \<Rightarrow> rune \<times> nat" where
  "DecodeRuneInString [] = (RuneError, 0)"
| "DecodeRuneInString (c0 # s) =
     (let b0 = byte_val c0 in
      if b0 < 128 then (int b0, 1)
      else if 194 \<le> b0 \<and> b0 \<le> 223 then
        (case s of
           c1 # _ \<Rightarrow>
             if in_bytes 128 191 c1
             then (int ((b0 - 192) * 64 + (byte_val c1 - 128)), 2)
             else (RuneError, 1)
         | _ \<Rightarrow> (RuneError, 1))
      else if 224 \<le> b0 \<and> b0 \<le> 239 then
        (case s of
           c1 # c2 # _ \<Rightarrow>
             if in_bytes (if b0 = 224 then 160 else 128) (if b0 = 237 then 159 else 191) c1
                \<and> in_bytes 128 191 c2
             then (int ((b0 - 224) * 4096 + (byte_val c1 - 128) * 64 + (byte_val c2 - 128)), 3)
             else (RuneError, 1)
         | _ \<Rightarrow> (RuneError, 1))
      else if 240 \<le> b0 \<and> b0 \<le> 244 then
        (case s of
           c1 # c2 # c3 # _ \<Rightarrow>
             if in_bytes (if b0 = 240 then 144 else 128) (if b0 = 244 then 143 else 191) c1
                \<and> in_bytes 128 191 c2 \<and> in_bytes 128 191 c3
             then (int ((b0 - 240) * 262144 + (byte_val c1 - 128) * 4096
                        + (byte_val c2 - 128) * 64 + (byte_val c3 - 128)), 4)
             else (RuneError, 1)
         | _ \<Rightarrow> (RuneError, 1))
      else (RuneError, 1))"

text \<open>\<^verbatim>\<open>for cx, ch := range s\<close>: the runes of a string with the byte offset each
  starts at. \<open>skip\<close> counts the bytes of the current rune still to pass over.\<close>

fun range_runes :: "nat \<Rightarrow> nat \<Rightarrow> string \<Rightarrow> (nat \<times> rune) list" where
  "range_runes skip off [] = []"
| "range_runes skip off (c # s) =
     (if 0 < skip then range_runes (skip - 1) (Suc off) s
      else (off, fst (DecodeRuneInString (c # s)))
             # range_runes (snd (DecodeRuneInString (c # s)) - 1) (Suc off) s)"

definition HasPrefix :: "string \<Rightarrow> string \<Rightarrow> bool" where
  "HasPrefix s p = (take (length p) s = p)"

definition HasSuffix :: "string \<Rightarrow> string \<Rightarrow> bool" where
  "HasSuffix s p = (length p \<le> length s \<and> drop (length s - length p) s = p)"

definition TrimSuffix :: "string \<Rightarrow> string \<Rightarrow> string" where
  "TrimSuffix s p = (if HasSuffix s p then take (length s - length p) s else s)"

text \<open>\<^verbatim>\<open>strings.Index\<close>: the byte offset of the first occurrence, or -1.\<close>

fun Index_from :: "int \<Rightarrow> string \<Rightarrow> string \<Rightarrow> int" where
  "Index_from k [] sub = (if sub = [] then k else - 1)"
| "Index_from k (c # s) sub = (if HasPrefix (c # s) sub then k else Index_from (k + 1) s sub)"

definition Index :: "string \<Rightarrow> string \<Rightarrow> int" where
  "Index s sub = Index_from 0 s sub"

definition Contains :: "string \<Rightarrow> string \<Rightarrow> bool" where
  "Contains s sub = (0 \<le> Index s sub)"

text \<open>\<^verbatim>\<open>strings.Lines\<close>: the lines of a text, each with its terminating newline;
  a last line without one is yielded as it is, and the empty text has no line.\<close>

fun Lines_acc :: "string \<Rightarrow> string \<Rightarrow> string list" where
  "Lines_acc cur [] = (if cur = [] then [] else [cur])"
| "Lines_acc cur (c # s) =
     (if c = CHR 0x0A then (cur @ [c]) # Lines_acc [] s else Lines_acc (cur @ [c]) s)"

definition Lines :: "string \<Rightarrow> string list" where
  "Lines s = Lines_acc [] s"

section \<open>The key decoder\<close>

text \<open>
  One call of \<^verbatim>\<open>os.Stdin.Read\<close> on a one-byte buffer gives a byte, or
  \<^verbatim>\<open>io.EOF\<close> when the 100 ms read timeout passes, or another error. The input
  is the list of the results of the reads to come; when the list is used up every
  further read times out.
\<close>

datatype read_result = Byte char | EOF | ReadErr

text \<open>What a call of \<^verbatim>\<open>editorReadKey\<close> does: return a key and leave the rest of
  the input, call \<^verbatim>\<open>die\<close>, or wait for ever in its first loop.\<close>

datatype key_outcome = Returned rune "read_result list" | Died | Waiting

definition backspace :: rune where "backspace = 127"
definition arrowUp :: rune where "arrowUp = 8593"
definition arrowDown :: rune where "arrowDown = 8595"
definition arrowLeft :: rune where "arrowLeft = 8592"
definition arrowRight :: rune where "arrowRight = 8594"
definition pageUp :: rune where "pageUp = 8607"
definition pageDown :: rune where "pageDown = 8609"
definition home :: rune where "home = 8606"
definition end_key :: rune where "end_key = 8608"
definition delete_key :: rune where "delete_key = 9003"
definition escape :: rune where "escape = 27"

fun read1 :: "read_result list \<Rightarrow> read_result \<times> read_result list" where
  "read1 [] = (EOF, [])"
| "read1 (r # rs) = (r, rs)"

text \<open>The part of \<^verbatim>\<open>editorReadKey\<close> after the two follow-up bytes were read.\<close>

definition decodeSeq :: "char \<Rightarrow> char \<Rightarrow> read_result list \<Rightarrow> key_outcome" where
  "decodeSeq s0 s1 inp =
     (if s0 = CHR ''['' then
        (if 48 \<le> byte_val s1 \<and> byte_val s1 \<le> 57 then
           (case read1 inp of
              (Byte s2, inp') \<Rightarrow>
                (if s2 = CHR ''~'' then
                   (if s1 = CHR ''1'' \<or> s1 = CHR ''7'' then Returned home inp'
                    else if s1 = CHR ''4'' \<or> s1 = CHR ''8'' then Returned end_key inp'
                    else if s1 = CHR ''3'' then Returned delete_key inp'
                    else if s1 = CHR ''5'' then Returned pageUp inp'
                    else if s1 = CHR ''6'' then Returned pageDown inp'
                    else Returned escape inp')
                 else Returned escape inp')
            | (_, inp') \<Rightarrow> Returned escape inp')
         else
           (if s1 = CHR ''A'' then Returned arrowUp inp
            else if s1 = CHR ''B'' then Returned arrowDown inp
            else if s1 = CHR ''C'' then Returned arrowRight inp
            else if s1 = CHR ''D'' then Returned arrowLeft inp
            else if s1 = CHR ''H'' then Returned home inp
            else if s1 = CHR ''F'' then Returned end_key inp
            else Returned escape inp))
      else if s0 = CHR ''O'' then
        (if s1 = CHR ''H'' then Returned home inp
         else if s1 = CHR ''F'' then Returned end_key inp
         else Returned escape inp)
      else Returned escape inp)"

definition readEscape :: "read_result list \<Rightarrow> key_outcome" where
  "readEscape inp =
     (case read1 inp of
        (Byte s0, inp1) \<Rightarrow>
          (case read1 inp1 of
             (Byte s1, inp2) \<Rightarrow> decodeSeq s0 s1 inp2
           | (_, inp2) \<Rightarrow> Returned escape inp2)
      | (_, inp1) \<Rightarrow> Returned escape inp1)"

fun editorReadKey :: "read_result list \<Rightarrow> key_outcome" where
  "editorReadKey [] = Waiting"
| "editorReadKey (EOF # inp) = editorReadKey inp"
| "editorReadKey (ReadErr # inp) = Died"
| "editorReadKey (Byte c # inp) =
     (if rune_of_byte c \<noteq> escape then Returned (rune_of_byte c) inp else readEscape inp)"

section \<open>Syntax profiles and highlight tags\<close>

record editorSyntax =
  fileType :: string
  matchers :: "string list"
  "keywords" :: "string list"
  singleLineCommentStart :: string
  multilineCommentStart :: string
  multilineCommentEnd :: string
  flags :: int

definition enableNumberHighlight :: int where "enableNumberHighlight = 1"
definition enableStringHighlight :: int where "enableStringHighlight = 2"

definition goSyntax :: editorSyntax where
  "goSyntax =
     \<lparr>fileType = ''go'', matchers = [''.go''],
      keywords =
        [''switch'', ''if'', ''for'', ''range'', ''break'', ''continue'', ''return'', ''else'',
         ''case'', ''struct'', ''type'',
         ''int|'', ''int32|'', ''int64|'', ''uint|'', ''uint32|'', ''uint64|'',
         ''float|'', ''float32|'', ''float64|'', ''string|'', ''rune|'', ''byte|'', ''map|'',
         ''chan|'', ''error|'', ''func|''],
      singleLineCommentStart = ''//'', multilineCommentStart = ''/*'',
      multilineCommentEnd = ''*/'',
      flags = enableNumberHighlight OR enableStringHighlight\<rparr>"

definition highlightDB :: "editorSyntax list" where
  "highlightDB = [goSyntax]"

datatype editorHighlight =
    highlightNormal | highlightComment | highlightMultiComment | highlightKeyword1
  | highlightKeyword2 | highlightString | highlightNumber | highlightMatch

text \<open>\<^verbatim>\<open>strings.Contains(",.()+-/*=~%<>[];", string(ch))\<close> holds exactly for the
  runes of these fifteen ASCII characters: the string of any other rune is not a
  substring of the set.\<close>

definition isSeparator :: "rune \<Rightarrow> bool" where
  "isSeparator ch =
     (ch = 32 \<or> ch = 0 \<or> ch \<in> set (map rune_of_byte '',.()+-/*=~%<>[];''))"

section \<open>The scan of one row (the loop of editorUpdateSyntax)\<close>

text \<open>The local variables of the loop: \<open>pos\<close> is the source's \<open>i\<close>, \<open>hl\<close> is
  \<^verbatim>\<open>row.highlight\<close>, which the loop writes in place.\<close>

record scan =
  pos :: nat
  isPrevSep :: bool
  stringStart :: rune
  isInComment :: bool
  hl :: "editorHighlight list"

text \<open>\<open>fill xs a b v\<close> writes \<open>v\<close> at every index \<open>j\<close> with \<open>a \<le> j < b\<close>.\<close>

definition fill :: "'a list \<Rightarrow> nat \<Rightarrow> nat \<Rightarrow> 'a \<Rightarrow> 'a list" where
  "fill xs a b v = map (\<lambda>j. if a \<le> j \<and> j < b then v else xs ! j) [0..<length xs]"

definition cur_ch :: "string \<Rightarrow> scan \<Rightarrow> rune" where
  "cur_ch rnd st = rune_of_byte (rnd ! pos st)"

definition prevHl :: "scan \<Rightarrow> editorHighlight" where
  "prevHl st = (if 0 < pos st then hl st ! (pos st - 1) else highlightNormal)"

text \<open>The guards of the first four rules, in the order the loop tries them.\<close>

definition rule_lineComment :: "editorSyntax \<Rightarrow> string \<Rightarrow> scan \<Rightarrow> bool" where
  "rule_lineComment syn rnd st =
     (0 < length (singleLineCommentStart syn) \<and> stringStart st = 0 \<and> \<not> isInComment st
      \<and> HasPrefix (drop (pos st) rnd) (singleLineCommentStart syn))"

definition rule_blockComment :: "editorSyntax \<Rightarrow> string \<Rightarrow> scan \<Rightarrow> bool" where
  "rule_blockComment syn rnd st =
     (0 < length (multilineCommentStart syn) \<and> 0 < length (multilineCommentEnd syn)
      \<and> stringStart st = 0
      \<and> (isInComment st \<or> HasPrefix (drop (pos st) rnd) (multilineCommentStart syn)))"

definition rule_string :: "editorSyntax \<Rightarrow> string \<Rightarrow> scan \<Rightarrow> bool" where
  "rule_string syn rnd st =
     (flags syn AND enableStringHighlight \<noteq> 0
      \<and> (stringStart st \<noteq> 0 \<or> cur_ch rnd st = 34 \<or> cur_ch rnd st = 39))"

definition rule_number :: "editorSyntax \<Rightarrow> string \<Rightarrow> scan \<Rightarrow> bool" where
  "rule_number syn rnd st =
     (flags syn AND enableNumberHighlight \<noteq> 0
      \<and> ((48 \<le> cur_ch rnd st \<and> cur_ch rnd st \<le> 57
             \<and> (isPrevSep st \<or> prevHl st = highlightNumber))
          \<or> (cur_ch rnd st = 46 \<and> prevHl st = highlightNumber)))"

text \<open>The test of lines 198 to 206 for one keyword at position \<open>k\<close>: the text there
  starts with the keyword, and a separator follows or the row ends.\<close>

definition keywordAt :: "string \<Rightarrow> nat \<Rightarrow> string \<Rightarrow> bool" where
  "keywordAt rnd k keyword =
     (HasPrefix (drop k rnd) keyword
      \<and> ((k + length keyword < length rnd
             \<and> isSeparator (rune_of_byte (rnd ! (k + length keyword))))
          \<or> k + length keyword = length rnd))"

text \<open>The loop over the keyword patterns at position \<open>k\<close>: the first pattern that
  matches, as the keyword without its \<open>|\<close> mark and whether it is secondary.\<close>

fun findKeyword :: "string \<Rightarrow> nat \<Rightarrow> string list \<Rightarrow> (string \<times> bool) option" where
  "findKeyword rnd k [] = None"
| "findKeyword rnd k (keywordPattern # rest) =
     (let isSecondary = HasSuffix keywordPattern ''|'';
          keyword = TrimSuffix keywordPattern ''|''
      in if keywordAt rnd k keyword then Some (keyword, isSecondary)
         else findKeyword rnd k rest)"

definition keywordTag :: "bool \<Rightarrow> editorHighlight" where
  "keywordTag isSecondary = (if isSecondary then highlightKeyword2 else highlightKeyword1)"

text \<open>One iteration of the loop, for \<open>pos st < length rnd\<close>. The first component
  tells whether the loop is left by \<^verbatim>\<open>break\<close>.\<close>

definition syntax_step :: "editorSyntax \<Rightarrow> string \<Rightarrow> scan \<Rightarrow> bool \<times> scan" where
  "syntax_step syn rnd st =
     (let i = pos st; ch = cur_ch rnd st in
      if rule_lineComment syn rnd st then
        (True, st\<lparr>hl := fill (hl st) i (length (hl st)) highlightComment\<rparr>)
      else if rule_blockComment syn rnd st then
        (if isInComment st then
           (if HasPrefix (drop i rnd) (multilineCommentEnd syn) then
              (False, st\<lparr>pos := i + length (multilineCommentEnd syn), isPrevSep := True,
                          isInComment := False,
                          hl := fill (hl st) i (i + length (multilineCommentEnd syn))
                                  highlightMultiComment\<rparr>)
            else (False, st\<lparr>pos := i + 1, hl := (hl st)[i := highlightMultiComment]\<rparr>))
         else
           (False, st\<lparr>pos := i + length (multilineCommentStart syn), isInComment := True,
                       hl := fill (hl st) i (i + length (multilineCommentStart syn))
                               highlightMultiComment\<rparr>))
      else if rule_string syn rnd st then
        (if stringStart st \<noteq> 0 then
           (if ch = 92 \<and> i + 1 < length rnd then
              (False, st\<lparr>pos := i + 2,
                          hl := (hl st)[i := highlightString, i + 1 := highlightString]\<rparr>)
            else
              (False, st\<lparr>pos := i + 1, isPrevSep := True,
                          stringStart := (if ch = stringStart st then 0 else stringStart st),
                          hl := (hl st)[i := highlightString]\<rparr>))
         else
           (False, st\<lparr>pos := i + 1, stringStart := ch,
                       hl := (hl st)[i := highlightString]\<rparr>))
      else if rule_number syn rnd st then
        (False, st\<lparr>pos := i + 1, isPrevSep := False, hl := (hl st)[i := highlightNumber]\<rparr>)
      else
        (case (if isPrevSep st then findKeyword rnd i (keywords syn) else None) of
           Some (keyword, isSecondary) \<Rightarrow>
             (False, st\<lparr>pos := i + length keyword, isPrevSep := False,
                         hl := fill (hl st) i (length rnd) (keywordTag isSecondary)\<rparr>)
         | None \<Rightarrow>
             (False, st\<lparr>pos := i + 1, isPrevSep := isSeparator ch,
                         hl := (hl st)[i := highlightNormal]\<rparr>)))"

text \<open>Every iteration moves \<open>i\<close> forward, but for a keyword that is the empty
  string: that one clears \<open>isPrevSep\<close>, so the next iteration tries no keyword.\<close>

definition scan_measure :: "string \<Rightarrow> scan \<Rightarrow> nat" where
  "scan_measure rnd st = 2 * (length rnd - pos st) + (if isPrevSep st then 1 else 0)"

lemma syntax_step_measure:
  assumes "pos st < length rnd" and "syntax_step syn rnd st = (False, st')"
  shows "scan_measure rnd st' < scan_measure rnd st"
proof -
  have adv: "pos st < pos st' \<or> (pos st' = pos st \<and> isPrevSep st \<and> \<not> isPrevSep st')"
    using assms(2)
    by (auto simp: syntax_step_def Let_def rule_blockComment_def
             split: if_splits option.splits prod.splits)
  then show ?thesis
    using assms(1) by (auto simp: scan_measure_def)
qed

function scan_loop :: "editorSyntax \<Rightarrow> string \<Rightarrow> scan \<Rightarrow> scan" where
  "scan_loop syn rnd st =
     (if pos st < length rnd then
        (case syntax_step syn rnd st of
           (True, st') \<Rightarrow> st'
         | (False, st') \<Rightarrow> scan_loop syn rnd st')
      else st)"
  by pat_completeness auto
termination
  by (relation "measure (\<lambda>(syn, rnd, st). scan_measure rnd st)")
     (auto simp: syntax_step_measure)

declare scan_loop.simps [simp del]

definition syntax_pass :: "editorSyntax \<Rightarrow> string \<Rightarrow> bool \<Rightarrow> editorHighlight list \<Rightarrow> scan" where
  "syntax_pass syn rnd inComment tags =
     scan_loop syn rnd
       \<lparr>pos = 0, isPrevSep = True, stringStart = 0, isInComment = inComment, hl = tags\<rparr>"

section \<open>Rows and the editor state\<close>

text \<open>
  \<open>highlight\<close> is the slice \<^verbatim>\<open>row.highlight\<close>. \<open>highlight_spare\<close> holds what stands
  behind the slice's length in its backing array: the tags that were inside the
  slice before it was last cut shorter. Whatever lies behind them was never written
  and is the zero value \<^term>\<open>highlightNormal\<close>, in the array as it is and in every
  array \<^verbatim>\<open>slices.Grow\<close> moves it to.
\<close>

record editorRow =
  idx :: int
  raw :: string
  render :: string
  highlight :: "editorHighlight list"
  highlight_spare :: "editorHighlight list"
  hasOpenComment :: bool

text \<open>The fields of \<^verbatim>\<open>editorConfig\<close> that the editing engine uses, and the
  package variables of the search.\<close>

record editorConfig =
  cx :: int
  cy :: int
  rowOffset :: int
  row :: "editorRow list"
  dirty :: bool
  filename :: string
  "syntax" :: "editorSyntax option"
  lastMatchLine :: int
  searchForward :: bool
  searchHighlightLine :: int
  beforeSearchHighlights :: "editorHighlight list"

definition tabStop :: nat where "tabStop = 8"

text \<open>\<open>xs[k]\<close> for a Go \<^verbatim>\<open>int\<close> index: \<^term>\<open>None\<close> is the index panic.\<close>

definition row_at :: "'a list \<Rightarrow> int \<Rightarrow> 'a option" where
  "row_at xs k = (if 0 \<le> k \<and> k < int (length xs) then Some (xs ! nat k) else None)"

text \<open>\<open>&e.row[k]\<close>: a pointer to a row is its position in \<open>e.row\<close>.\<close>

definition row_ptr :: "editorConfig \<Rightarrow> int \<Rightarrow> nat option" where
  "row_ptr e k = (if 0 \<le> k \<and> k < int (length (row e)) then Some (nat k) else None)"

text \<open>Lines 100 and 101 of highlight.go: \<^verbatim>\<open>slices.Grow\<close> makes room, the slice
  expression sets the length to \<open>n\<close>.\<close>

definition resize_highlight :: "nat \<Rightarrow> editorRow \<Rightarrow> editorRow" where
  "resize_highlight n r =
     r\<lparr>highlight := take n (highlight r @ highlight_spare r @ replicate n highlightNormal),
       highlight_spare := drop n (highlight r @ highlight_spare r)\<rparr>"

text \<open>Line 109: the flag of the row before, found through the field \<open>idx\<close>.\<close>

definition prevOpenComment :: "editorConfig \<Rightarrow> editorRow \<Rightarrow> bool option" where
  "prevOpenComment e r =
     (if 0 < idx r then map_option hasOpenComment (row_at (row e) (idx r - 1)) else Some False)"

text \<open>Lines 107 to 233 on a row whose tags were resized: the scan and the store of
  the flag.\<close>

definition highlight_row :: "editorSyntax \<Rightarrow> bool \<Rightarrow> editorRow \<Rightarrow> editorRow" where
  "highlight_row syn inComment r =
     (let fin = syntax_pass syn (render r) inComment (highlight r)
      in r\<lparr>highlight := hl fin, hasOpenComment := isInComment fin\<rparr>)"

text \<open>\<^verbatim>\<open>editorUpdateSyntax(row)\<close> for the row at position \<open>p\<close> of \<open>e.row\<close>. The row
  after is found through the field \<open>idx\<close> too, so the recursion need not go down the
  document: the function is a partial one, and \<^term>\<open>None\<close> stands for a panic
  and for a recursion without end. On a document whose rows carry their positions it
  returns (lemma \<open>editorUpdateSyntax_total\<close> below).\<close>

partial_function (option) editorUpdateSyntax :: "nat \<Rightarrow> editorConfig \<Rightarrow> editorConfig option" where
  "editorUpdateSyntax p e =
     (if p < length (row e) then
        (let r = resize_highlight (length (render (row e ! p))) (row e ! p) in
         case syntax e of
           None \<Rightarrow> Some (e\<lparr>row := (row e)[p := r]\<rparr>)
         | Some syn \<Rightarrow>
             Option.bind (prevOpenComment e r)
               (\<lambda>inComment.
                  let r' = highlight_row syn inComment r;
                      changed = (hasOpenComment r' \<noteq> hasOpenComment r);
                      e' = e\<lparr>row := (row e)[p := r']\<rparr>
                  in if changed \<and> idx r + 1 < int (length (row e))
                     then Option.bind (row_ptr e' (idx r + 1)) (\<lambda>q. editorUpdateSyntax q e')
                     else Some e'))
      else None)"

declare editorUpdateSyntax.simps [code]

text \<open>The loop of \<^verbatim>\<open>editorUpdateRow\<close> over the runes of \<open>raw\<close>; \<open>k\<close> is its counter
  \<open>idx\<close>. A tab writes one space and then spaces up to the next tab stop, which is
  \<open>tabStop - k mod tabStop\<close> spaces together.\<close>

fun render_loop :: "nat \<Rightarrow> (nat \<times> rune) list \<Rightarrow> string" where
  "render_loop k [] = []"
| "render_loop k ((off, ch) # rs) =
     (if ch = 9 then
        replicate (tabStop - k mod tabStop) (CHR '' '')
          @ render_loop (k + (tabStop - k mod tabStop)) rs
      else AppendRune ch @ render_loop (k + 1) rs)"

definition render_of :: "string \<Rightarrow> string" where
  "render_of s = render_loop 0 (range_runes 0 0 s)"

definition editorUpdateRow :: "nat \<Rightarrow> editorConfig \<Rightarrow> editorConfig option" where
  "editorUpdateRow p e =
     (if p < length (row e) then
        editorUpdateSyntax p
          (e\<lparr>row := (row e)[p := (row e ! p)\<lparr>render := render_of (raw (row e ! p))\<rparr>]\<rparr>)
      else None)"

section \<open>Structural mutations\<close>

definition set_dirty :: "editorConfig \<Rightarrow> editorConfig" where
  "set_dirty e = e\<lparr>dirty := True\<rparr>"

definition editorInsertRow :: "int \<Rightarrow> string \<Rightarrow> editorConfig \<Rightarrow> editorConfig option" where
  "editorInsertRow at line e =
     (if 0 \<le> at \<and> at \<le> int (length (row e)) then
        map_option set_dirty
          (editorUpdateRow (nat at)
             (e\<lparr>row := take (nat at) (row e)
                        @ [\<lparr>idx = at, raw = line, render = [], highlight = [],
                            highlight_spare = [], hasOpenComment = False\<rparr>]
                        @ map (\<lambda>r. r\<lparr>idx := idx r + 1\<rparr>) (drop (nat at) (row e))\<rparr>))
      else None)"

definition editorDelRow :: "int \<Rightarrow> editorConfig \<Rightarrow> editorConfig option" where
  "editorDelRow at e =
     (if at < 0 \<or> int (length (row e)) \<le> at then Some e
      else Some (e\<lparr>row := take (nat at) (row e)
                          @ map (\<lambda>r. r\<lparr>idx := idx r - 1\<rparr>) (drop (nat at + 1) (row e)),
                   dirty := True\<rparr>))"

definition set_raw :: "nat \<Rightarrow> string \<Rightarrow> editorConfig \<Rightarrow> editorConfig" where
  "set_raw p s e = e\<lparr>row := (row e)[p := (row e ! p)\<lparr>raw := s\<rparr>]\<rparr>"

text \<open>\<^verbatim>\<open>editorRowInsertChar\<close>. \<^verbatim>\<open>newRaw.Grow(len(row.raw) + utf8.RuneLen(c))\<close>
  panics on a negative count, which is the case of a rune without an encoding put
  into an empty row.\<close>

definition editorRowInsertChar :: "nat \<Rightarrow> int \<Rightarrow> rune \<Rightarrow> editorConfig \<Rightarrow> editorConfig option" where
  "editorRowInsertChar p at c e =
     (if p < length (row e) then
        (let s = raw (row e ! p);
             at' = (if at < 0 \<or> int (length s) < at then length s else nat at)
         in if int (length s) + RuneLen c < 0 then None
            else map_option set_dirty
                   (editorUpdateRow p (set_raw p (take at' s @ AppendRune c @ drop at' s) e)))
      else None)"

definition editorRowAppendString :: "nat \<Rightarrow> string \<Rightarrow> editorConfig \<Rightarrow> editorConfig option" where
  "editorRowAppendString p s e =
     (if p < length (row e) then
        map_option set_dirty (editorUpdateRow p (set_raw p (raw (row e ! p) @ s) e))
      else None)"

definition editorRowDelChar :: "nat \<Rightarrow> int \<Rightarrow> editorConfig \<Rightarrow> editorConfig option" where
  "editorRowDelChar p at e =
     (if p < length (row e) then
        (let s = raw (row e ! p) in
         if at < 0 \<or> int (length s) \<le> at then Some e
         else map_option set_dirty
                (editorUpdateRow p (set_raw p (take (nat at) s @ drop (nat at + 1) s) e)))
      else None)"

definition editorInsertChar :: "rune \<Rightarrow> editorConfig \<Rightarrow> editorConfig option" where
  "editorInsertChar c e =
     Option.bind
       (if cy e = int (length (row e)) then editorInsertRow (int (length (row e))) [] e
        else Some e)
       (\<lambda>e1. Option.bind (row_ptr e1 (cy e1))
          (\<lambda>p. map_option (\<lambda>e2. e2\<lparr>cx := cx e2 + 1\<rparr>) (editorRowInsertChar p (cx e1) c e1)))"

definition editorDelChar :: "editorConfig \<Rightarrow> editorConfig option" where
  "editorDelChar e =
     (if cy e = int (length (row e)) \<or> (cx e = 0 \<and> cy e = 0) then Some e
      else
        Option.bind (row_ptr e (cy e))
          (\<lambda>p. if 0 < cx e then
                  map_option (\<lambda>e1. e1\<lparr>cx := cx e1 - 1\<rparr>) (editorRowDelChar p (cx e - 1) e)
                else
                  Option.bind (row_ptr e (cy e - 1))
                    (\<lambda>q. Option.bind
                            (editorRowAppendString q (raw (row e ! p))
                               (e\<lparr>cx := int (length (raw (row e ! q)))\<rparr>))
                            (\<lambda>e2. map_option (\<lambda>e3. e3\<lparr>cy := cy e3 - 1\<rparr>)
                                     (editorDelRow (cy e2) e2)))))"

text \<open>\<open>s[k:]\<close> and \<open>s[:k]\<close>: the slice bounds must lie within the string.\<close>

definition slice_from :: "string \<Rightarrow> int \<Rightarrow> string option" where
  "slice_from s k = (if 0 \<le> k \<and> k \<le> int (length s) then Some (drop (nat k) s) else None)"

definition slice_to :: "string \<Rightarrow> int \<Rightarrow> string option" where
  "slice_to s k = (if 0 \<le> k \<and> k \<le> int (length s) then Some (take (nat k) s) else None)"

definition editorInsertNewline :: "editorConfig \<Rightarrow> editorConfig option" where
  "editorInsertNewline e =
     map_option (\<lambda>e'. e'\<lparr>cy := cy e' + 1, cx := 0\<rparr>)
       (if cx e = 0 then editorInsertRow (cy e) [] e
        else
          Option.bind (row_ptr e (cy e))
            (\<lambda>p. Option.bind (slice_from (raw (row e ! p)) (cx e))
               (\<lambda>rest. Option.bind (editorInsertRow (cy e + 1) rest e)
                  (\<lambda>e1. Option.bind (row_ptr e1 (cy e1))
                     (\<lambda>p1. Option.bind (slice_to (raw (row e1 ! p1)) (cx e1))
                        (\<lambda>front. editorUpdateRow p1 (set_raw p1 front e1)))))))"

section \<open>Raw columns and render columns\<close>

definition rx_step :: "int \<Rightarrow> rune \<Rightarrow> int" where
  "rx_step rx ch = (if ch = 9 then rx + ((int tabStop - 1) - rx mod int tabStop) else rx) + 1"

text \<open>\<^verbatim>\<open>editorRowCxToRx\<close> reads the bytes \<open>raw[0]\<close> to \<open>raw[cx-1]\<close>, and panics
  when \<open>cx\<close> is beyond the length of \<open>raw\<close>.\<close>

definition editorRowCxToRx :: "editorRow \<Rightarrow> int \<Rightarrow> int option" where
  "editorRowCxToRx r k =
     (if int (length (raw r)) < k then None
      else Some (foldl rx_step 0 (map rune_of_byte (take (nat k) (raw r)))))"

text \<open>\<^verbatim>\<open>editorRowRxToCx\<close> ranges over the runes of \<open>raw\<close>; \<^term>\<open>None\<close> from the loop
  means that it ended without a \<^verbatim>\<open>return\<close>.\<close>

fun rxToCx_loop :: "int \<Rightarrow> int \<Rightarrow> (nat \<times> rune) list \<Rightarrow> int option" where
  "rxToCx_loop curRx rx [] = None"
| "rxToCx_loop curRx rx ((off, ch) # rs) =
     (if rx < rx_step curRx ch then Some (int off) else rxToCx_loop (rx_step curRx ch) rx rs)"

definition editorRowRxToCx :: "editorRow \<Rightarrow> int \<Rightarrow> int" where
  "editorRowRxToCx r rx =
     (case rxToCx_loop 0 rx (range_runes 0 0 (raw r)) of
        Some k \<Rightarrow> k
      | None \<Rightarrow> int (length (raw r)))"

section \<open>Search\<close>

text \<open>\<^verbatim>\<open>copy(dst, src)\<close> writes the first \<open>min (len dst) (len src)\<close> elements.\<close>

definition copy_into :: "'a list \<Rightarrow> 'a list \<Rightarrow> 'a list" where
  "copy_into dst src = take (length dst) src @ drop (length src) dst"

definition clearSearchHighlight :: "editorConfig \<Rightarrow> editorConfig option" where
  "clearSearchHighlight e =
     (if 0 < length (beforeSearchHighlights e) then
        map_option
          (\<lambda>k. e\<lparr>row := (row e)[k := (row e ! k)
                              \<lparr>highlight := copy_into (highlight (row e ! k))
                                               (beforeSearchHighlights e)\<rparr>],
                  beforeSearchHighlights := []\<rparr>)
          (row_ptr e (searchHighlightLine e))
      else Some e)"

text \<open>\<^verbatim>\<open>highlightSearchResult\<close> gets a copy of the row at position \<open>k\<close>; the copy
  shares the tag array of the row, so the tags it writes are the row's.\<close>

definition highlightSearchResult :: "nat \<Rightarrow> string \<Rightarrow> int \<Rightarrow> editorConfig \<Rightarrow> editorConfig option" where
  "highlightSearchResult k query offset e =
     (let r = row e ! k in
      if query = [] \<or> (0 \<le> offset \<and> offset + int (length query) \<le> int (length (highlight r)))
      then Some (e\<lparr>searchHighlightLine := idx r,
                   beforeSearchHighlights := highlight r,
                   row := (row e)[k := r\<lparr>highlight :=
                            fill (highlight r) (nat offset) (nat offset + length query)
                              highlightMatch\<rparr>]\<rparr>)
      else None)"

text \<open>The loop of \<^verbatim>\<open>editorFindCallback\<close>: \<open>n\<close> iterations are left, \<open>cur\<close> is
  \<open>currentSearchLine\<close>.\<close>

fun find_loop :: "nat \<Rightarrow> int \<Rightarrow> string \<Rightarrow> editorConfig \<Rightarrow> editorConfig option" where
  "find_loop 0 cur query e = Some e"
| "find_loop (Suc n) cur query e =
     (let cur1 = (if searchForward e then cur + 1 else cur - 1);
          cur2 = (if cur1 = - 1 then int (length (row e)) - 1
                  else if cur1 = int (length (row e)) then 0 else cur1)
      in case row_at (row e) cur2 of
           None \<Rightarrow> None
         | Some r \<Rightarrow>
             if 0 \<le> Index (render r) query then
               highlightSearchResult (nat cur2) query (Index (render r) query)
                 (e\<lparr>lastMatchLine := cur2, cy := cur2,
                    cx := editorRowRxToCx r (Index (render r) query),
                    rowOffset := int (length (row e))\<rparr>)
             else find_loop n cur2 query e)"

definition editorFindCallback :: "string \<Rightarrow> rune \<Rightarrow> editorConfig \<Rightarrow> editorConfig option" where
  "editorFindCallback query key e =
     Option.bind (clearSearchHighlight e)
       (\<lambda>e1. if key = 13 \<or> key = 27 then Some (e1\<lparr>lastMatchLine := - 1, searchForward := True\<rparr>)
             else
               (let e2 = (if key = arrowRight \<or> key = arrowDown then e1\<lparr>searchForward := True\<rparr>
                          else if key = arrowLeft \<or> key = arrowUp
                            then e1\<lparr>searchForward := False\<rparr>
                          else e1\<lparr>lastMatchLine := - 1, searchForward := True\<rparr>);
                    e3 = (if lastMatchLine e2 = - 1 then e2\<lparr>searchForward := True\<rparr> else e2)
                in find_loop (length (row e3)) (lastMatchLine e3) query e3))"

text \<open>
  \<^verbatim>\<open>editorFind\<close>. \<^verbatim>\<open>editorPrompt\<close> calls the callback after every key it reads,
  with the text typed so far and the key. \<open>calls\<close> are the calls before the key that
  ends the prompt; that key is Enter on a text that is not empty (\<open>entered\<close>), or
  Escape, and the callback is called with it and the text \<open>query\<close>. The prompt returns
  the text after Enter and the empty string after Escape, for which \<^verbatim>\<open>editorFind\<close>
  puts the cursor back.
\<close>

definition editorFind :: "(string \<times> rune) list \<Rightarrow> string \<Rightarrow> bool \<Rightarrow> editorConfig \<Rightarrow> editorConfig option" where
  "editorFind calls query entered e =
     Option.bind
       (foldl (\<lambda>eo c. Option.bind eo (editorFindCallback (fst c) (snd c))) (Some e) calls)
       (\<lambda>e1. map_option
                (\<lambda>e2. if (if entered then query else []) = []
                      then e2\<lparr>cx := cx e, cy := cy e, rowOffset := rowOffset e\<rparr>
                      else e2)
                (editorFindCallback query (if entered then 13 else 27) e1))"

section \<open>Cursor movement\<close>

text \<open>The text of the cursor's row, read before the \<^verbatim>\<open>switch\<close>.\<close>

definition cursor_line :: "editorConfig \<Rightarrow> string option" where
  "cursor_line e =
     (if cy e < int (length (row e)) then map_option raw (row_at (row e) (cy e)) else Some [])"

text \<open>The \<^verbatim>\<open>switch\<close> on the key.\<close>

definition cursor_switch :: "rune \<Rightarrow> string \<Rightarrow> editorConfig \<Rightarrow> editorConfig option" where
  "cursor_switch key line e =
     (if key = arrowUp then Some (if cy e \<noteq> 0 then e\<lparr>cy := cy e - 1\<rparr> else e)
      else if key = arrowLeft then
        (if cx e \<noteq> 0 then Some (e\<lparr>cx := cx e - 1\<rparr>)
         else if 0 < cy e then
           map_option (\<lambda>r. e\<lparr>cy := cy e - 1, cx := int (length (raw r))\<rparr>)
             (row_at (row e) (cy e - 1))
         else Some e)
      else if key = arrowDown then
        Some (if cy e < int (length (row e)) then e\<lparr>cy := cy e + 1\<rparr> else e)
      else if key = arrowRight then
        Some (if cx e < int (length line) then e\<lparr>cx := cx e + 1\<rparr>
              else if cy e < int (length (row e)) \<and> cx e = int (length line)
                then e\<lparr>cy := cy e + 1, cx := 0\<rparr>
              else e)
      else Some e)"

text \<open>The last statement: the column is cut to the length of the row the cursor is
  on now.\<close>

definition cursor_clamp :: "editorConfig \<Rightarrow> editorConfig option" where
  "cursor_clamp e =
     (if cy e < int (length (row e)) then
        map_option (\<lambda>r. e\<lparr>cx := min (cx e) (int (length (raw r)))\<rparr>) (row_at (row e) (cy e))
      else Some (e\<lparr>cx := 0\<rparr>))"

definition editorMoveCursor :: "rune \<Rightarrow> editorConfig \<Rightarrow> editorConfig option" where
  "editorMoveCursor key e =
     Option.bind (cursor_line e)
       (\<lambda>line. Option.bind (cursor_switch key line e) cursor_clamp)"

section \<open>Saving and opening\<close>

definition editorRowsToString :: "editorConfig \<Rightarrow> string" where
  "editorRowsToString e = concat (map (\<lambda>r. raw r @ AppendRune 10) (row e))"

text \<open>\<^verbatim>\<open>filepath.Ext\<close>: the suffix from the last dot of the last path element.
  The scan runs from the end of the path, here over the reversed path.\<close>

fun Ext_scan :: "string \<Rightarrow> string \<Rightarrow> string" where
  "Ext_scan [] seen = []"
| "Ext_scan (c # s) seen =
     (if c = CHR ''/'' then [] else if c = CHR ''.'' then c # seen else Ext_scan s (c # seen))"

definition Ext :: "string \<Rightarrow> string" where
  "Ext path = Ext_scan (rev path) []"

text \<open>The two loops of \<^verbatim>\<open>editorSelectSyntaxHighlight\<close>; \<open>matcher[0]\<close> panics on an
  empty matcher.\<close>

fun matchAny :: "string \<Rightarrow> string \<Rightarrow> string list \<Rightarrow> bool option" where
  "matchAny name ext [] = Some False"
| "matchAny name ext (matcher # ms) =
     (case matcher of
        [] \<Rightarrow> None
      | c # _ \<Rightarrow>
          if c = CHR ''.'' then (if matcher = ext then Some True else matchAny name ext ms)
          else if Contains name matcher then Some True
          else matchAny name ext ms)"

fun selectSyntax :: "string \<Rightarrow> string \<Rightarrow> editorSyntax list \<Rightarrow> editorSyntax option option" where
  "selectSyntax name ext [] = Some None"
| "selectSyntax name ext (syn # db) =
     Option.bind (matchAny name ext (matchers syn))
       (\<lambda>found. if found then Some (Some syn) else selectSyntax name ext db)"

text \<open>
  The last loop of \<^verbatim>\<open>editorSelectSyntaxHighlight\<close> calls \<^verbatim>\<open>editorUpdateSyntax\<close> on
  a copy of each row. What the copy's header gets (length, flag) is lost; the tags
  reach the row only when \<^verbatim>\<open>slices.Grow\<close> found room for \<open>len(render)\<close> more tags
  in the row's own array, which depends on the capacity of that array. Capacities
  are not part of this embedding: \<open>inplace r\<close> tells whether row \<open>r\<close> has that room.
  The recursive call on the next row is on the row itself.
\<close>

definition updateSyntax_of_copy :: "(editorRow \<Rightarrow> bool) \<Rightarrow> nat \<Rightarrow> editorConfig \<Rightarrow> editorConfig option" where
  "updateSyntax_of_copy inplace k e =
     (let r0 = row e ! k; r = resize_highlight (length (render r0)) r0 in
      case syntax e of
        None \<Rightarrow> Some e
      | Some syn \<Rightarrow>
          Option.bind (prevOpenComment e r)
            (\<lambda>inComment.
               let r' = highlight_row syn inComment r;
                   changed = (hasOpenComment r' \<noteq> hasOpenComment r);
                   arr = highlight r'
                           @ drop (length (highlight r')) (highlight r0 @ highlight_spare r0);
                   e' = (if inplace r0
                         then e\<lparr>row := (row e)[k := r0
                                  \<lparr>highlight := take (length (highlight r0)) arr,
                                   highlight_spare := drop (length (highlight r0)) arr\<rparr>]\<rparr>
                         else e)
               in if changed \<and> idx r + 1 < int (length (row e))
                  then Option.bind (row_ptr e' (idx r + 1)) (\<lambda>q. editorUpdateSyntax q e')
                  else Some e'))"

definition editorSelectSyntaxHighlight :: "(editorRow \<Rightarrow> bool) \<Rightarrow> editorConfig \<Rightarrow> editorConfig option" where
  "editorSelectSyntaxHighlight inplace e =
     (if filename e = [] then Some (e\<lparr>syntax := None\<rparr>)
      else
        Option.bind (selectSyntax (filename e) (Ext (filename e)) highlightDB)
          (\<lambda>sel. foldl (\<lambda>eo k. Option.bind eo (updateSyntax_of_copy inplace k))
                    (Some (e\<lparr>syntax := sel\<rparr>)) [0..<length (row e)]))"

text \<open>
  \<^verbatim>\<open>editorSave\<close>. \<open>answer\<close> is what \<^verbatim>\<open>editorPrompt\<close> returns when the document has
  no file name yet (the empty string when the prompt is left with Escape), \<open>written\<close>
  tells whether \<^verbatim>\<open>os.WriteFile\<close> succeeded. The bytes written are those of
  \<^const>\<open>editorRowsToString\<close>.
\<close>

definition save_file :: "bool \<Rightarrow> editorConfig \<Rightarrow> editorConfig" where
  "save_file written e = (if written then e\<lparr>dirty := False\<rparr> else e)"

definition editorSave :: "(editorRow \<Rightarrow> bool) \<Rightarrow> string \<Rightarrow> bool \<Rightarrow> editorConfig \<Rightarrow> editorConfig option" where
  "editorSave inplace answer written e =
     (if filename e = [] then
        (if answer = [] then Some (e\<lparr>filename := answer\<rparr>)
         else map_option (save_file written)
                (editorSelectSyntaxHighlight inplace (e\<lparr>filename := answer\<rparr>)))
      else Some (save_file written e))"

text \<open>\<^verbatim>\<open>editorOpen\<close>; \<open>file\<close> is what \<^verbatim>\<open>os.ReadFile\<close> gives, \<^term>\<open>None\<close> for an
  error, on which the editor dies: that is the result \<^term>\<open>None\<close> too.\<close>

definition editorOpen :: "(editorRow \<Rightarrow> bool) \<Rightarrow> string \<Rightarrow> string option \<Rightarrow> editorConfig \<Rightarrow> editorConfig option" where
  "editorOpen inplace path file e =
     Option.bind (editorSelectSyntaxHighlight inplace (e\<lparr>filename := path\<rparr>))
       (\<lambda>e1. case file of
                None \<Rightarrow> None
              | Some text \<Rightarrow>
                  map_option (\<lambda>e2. e2\<lparr>dirty := False\<rparr>)
                    (foldl (\<lambda>eo line. Option.bind eo
                              (\<lambda>e'. editorInsertRow (int (length (row e')))
                                       (TrimSuffix line [CHR 0x0A]) e'))
                       (Some e1) (Lines text)))"

text \<open>The editor state at start: the configuration \<^verbatim>\<open>initEditor\<close> returns and the
  initial values of the package variables.\<close>

definition initEditor :: editorConfig where
  "initEditor =
     \<lparr>cx = 0, cy = 0, rowOffset = 0, row = [], dirty = False, filename = [], syntax = None,
      lastMatchLine = - 1, searchForward = True, searchHighlightLine = 0,
      beforeSearchHighlights = []\<rparr>"

text \<open>The start of \<^verbatim>\<open>main\<close>: \<^verbatim>\<open>initEditor\<close>, and \<^verbatim>\<open>editorOpen\<close> when the command
  line names a file; \<open>arg\<close> is that path with what reading the file gives.\<close>

definition startup :: "(editorRow \<Rightarrow> bool) \<Rightarrow> (string \<times> string option) option \<Rightarrow> editorConfig option" where
  "startup inplace arg =
     (case arg of
        None \<Rightarrow> Some initEditor
      | Some (path, file) \<Rightarrow> editorOpen inplace path file initEditor)"

section \<open>Notions used in the properties\<close>

text \<open>A row whose tag list is as long as its rendered text.\<close>

definition tags_ok :: "editorRow \<Rightarrow> bool" where
  "tags_ok r = (length (highlight r) = length (render r))"

text \<open>\<open>same_text r r'\<close>: \<open>r'\<close> has the position index and the raw and rendered text of
  \<open>r\<close>, and a tag list of the right length if \<open>r\<close> has one.\<close>

definition same_text :: "editorRow \<Rightarrow> editorRow \<Rightarrow> bool" where
  "same_text r r' =
     (idx r' = idx r \<and> raw r' = raw r \<and> render r' = render r \<and> (tags_ok r \<longrightarrow> tags_ok r'))"

text \<open>What a call of \<^const>\<open>editorUpdateSyntax\<close> on row \<open>p\<close> leaves alone.\<close>

definition syntax_frame :: "nat \<Rightarrow> editorConfig \<Rightarrow> editorConfig \<Rightarrow> bool" where
  "syntax_frame p e e' =
     (e' = e\<lparr>row := row e'\<rparr> \<and> length (row e') = length (row e)
      \<and> (\<forall>k < length (row e). same_text (row e ! k) (row e' ! k))
      \<and> p < length (row e) \<and> tags_ok (row e' ! p))"

text \<open>Every row's position index is its position in the document.\<close>

definition rows_indexed :: "editorRow list \<Rightarrow> bool" where
  "rows_indexed rs = (map idx rs = map int [0..<length rs])"

text \<open>A document of two rows with the cursor at the end of the first.\<close>

definition cursor_doc :: editorConfig where
  "cursor_doc =
     initEditor\<lparr>row :=
       [\<lparr>idx = 0, raw = ''ab'', render = ''ab'',
         highlight = [highlightNormal, highlightNormal], highlight_spare = [],
         hasOpenComment = False\<rparr>,
        \<lparr>idx = 1, raw = ''c'', render = ''c'', highlight = [highlightNormal],
         highlight_spare = [], hasOpenComment = False\<rparr>],
       cx := 2\<rparr>"

text \<open>The two length conditions of a row: as many tags as rendered characters, and a
  rendered text at least as long as the raw text.\<close>

definition row_lengths_ok :: "editorRow \<Rightarrow> bool" where
  "row_lengths_ok r =
     (length (highlight r) = length (render r) \<and> length (raw r) \<le> length (render r))"

text \<open>The mutations of the document: the row operations, on the row at position \<open>k\<close>
  of the document, and the editing commands at the cursor.\<close>

datatype mutation =
    InsertRow int string | DelRow int
  | RowInsertChar int int rune | RowAppendString int string | RowDelChar int int
  | InsertChar rune | DelChar | InsertNewline

fun mutate :: "mutation \<Rightarrow> editorConfig \<Rightarrow> editorConfig option" where
  "mutate (InsertRow at line) e = editorInsertRow at line e"
| "mutate (DelRow at) e = editorDelRow at e"
| "mutate (RowInsertChar k at c) e = Option.bind (row_ptr e k) (\<lambda>p. editorRowInsertChar p at c e)"
| "mutate (RowAppendString k s) e = Option.bind (row_ptr e k) (\<lambda>p. editorRowAppendString p s e)"
| "mutate (RowDelChar k at) e = Option.bind (row_ptr e k) (\<lambda>p. editorRowDelChar p at e)"
| "mutate (InsertChar c) e = editorInsertChar c e"
| "mutate DelChar e = editorDelChar e"
| "mutate InsertNewline e = editorInsertNewline e"

fun run :: "mutation list \<Rightarrow> editorConfig \<Rightarrow> editorConfig option" where
  "run [] e = Some e"
| "run (m # ms) e = Option.bind (mutate m e) (run ms)"

text \<open>A document typed into the empty editor: a tab, the letter \<open>a\<close>, Enter.\<close>

definition typed_doc :: "editorConfig option" where
  "typed_doc =
     run [InsertChar 9, InsertChar 97, InsertNewline] (initEditor\<lparr>syntax := Some goSyntax\<rparr>)"

text \<open>A row all of whose tags are normal: those of the slice \<open>highlight\<close> and those
  behind it in its array.\<close>

definition tags_normal :: "editorRow \<Rightarrow> bool" where
  "tags_normal r = list_all (\<lambda>t. t = highlightNormal) (highlight r @ highlight_spare r)"

text \<open>A row as it is with no profile: the rendered text is that of the raw text, there
  are as many tags as rendered characters, and all tags are normal.\<close>

definition row_plain :: "editorRow \<Rightarrow> bool" where
  "row_plain r =
     (render r = render_of (raw r) \<and> length (highlight r) = length (render r) \<and> tags_normal r)"

text \<open>
  What the editor does between two passes of the loop of \<^verbatim>\<open>main\<close>: a mutation of
  the document, \<^verbatim>\<open>editorSave\<close>, \<^verbatim>\<open>editorFind\<close>, \<^verbatim>\<open>editorMoveCursor\<close>.
  \<open>Cursor x y off\<close> stands for the assignments to \<open>e.cx\<close>, \<open>e.cy\<close> and \<open>e.rowOffset\<close> of
  the Home, End and page keys and of \<^verbatim>\<open>editorScroll\<close>: it sets the three to any
  values. A session is a sequence of these commands.
\<close>

datatype command =
    Mutate mutation | Save string bool | Find "(string \<times> rune) list" string bool
  | Move rune | Cursor int int int

fun perform :: "(editorRow \<Rightarrow> bool) \<Rightarrow> command \<Rightarrow> editorConfig \<Rightarrow> editorConfig option" where
  "perform inplace (Mutate m) e = mutate m e"
| "perform inplace (Save answer written) e = editorSave inplace answer written e"
| "perform inplace (Find calls query entered) e = editorFind calls query entered e"
| "perform inplace (Move key) e = editorMoveCursor key e"
| "perform inplace (Cursor x y off) e = Some (e\<lparr>cx := x, cy := y, rowOffset := off\<rparr>)"

fun session :: "(editorRow \<Rightarrow> bool) \<Rightarrow> command list \<Rightarrow> editorConfig \<Rightarrow> editorConfig option" where
  "session inplace [] e = Some e"
| "session inplace (c # cs) e = Option.bind (perform inplace c e) (session inplace cs)"

text \<open>
  The invariant of the sessions: a document without a file name has no profile, and
  with no profile every row is plain, the rows carry their positions and no search
  result is marked.
\<close>

definition profile_inv :: "editorConfig \<Rightarrow> bool" where
  "profile_inv e =
     ((filename e = [] \<longrightarrow> syntax e = None)
      \<and> (syntax e = None \<longrightarrow>
           list_all row_plain (row e) \<and> rows_indexed (row e) \<and> beforeSearchHighlights e = []))"

text \<open>What a mutation keeps: the profile, the file name and the saved tags of the
  search, rows that carry their positions, and with no profile rows that are plain.\<close>

definition keeps_profile :: "editorConfig \<Rightarrow> editorConfig \<Rightarrow> bool" where
  "keeps_profile e e' =
     (syntax e' = syntax e \<and> filename e' = filename e
      \<and> beforeSearchHighlights e' = beforeSearchHighlights e
      \<and> (rows_indexed (row e) \<longrightarrow> rows_indexed (row e'))
      \<and> (syntax e = None \<and> list_all row_plain (row e) \<longrightarrow> list_all row_plain (row e')))"

text \<open>The rows with the mark of the search result taken away, and the invariant of a
  search in a document with no profile: without the mark every row is plain, and the
  saved tags are as many as the tags of the marked row.\<close>

definition unmarked :: "editorConfig \<Rightarrow> editorRow list" where
  "unmarked e =
     (if beforeSearchHighlights e = [] then row e
      else (row e)[nat (searchHighlightLine e) :=
             (row e ! nat (searchHighlightLine e))\<lparr>highlight := beforeSearchHighlights e\<rparr>])"

definition search_inv :: "editorConfig \<Rightarrow> bool" where
  "search_inv e =
     (rows_indexed (row e) \<and> list_all row_plain (unmarked e)
      \<and> (beforeSearchHighlights e \<noteq> [] \<longrightarrow>
           0 \<le> searchHighlightLine e \<and> searchHighlightLine e < int (length (row e))
           \<and> length (beforeSearchHighlights e)
               = length (highlight (row e ! nat (searchHighlightLine e)))))"

text \<open>Two sessions in the empty editor. In the first \<open>if\<close> is typed, \<open>f\<close> is searched
  for, the document is saved as \<open>notes\<close> and Enter is pressed; in the second \<open>if\<close> is
  typed and the document is saved as \<open>a.go\<close>.\<close>

definition plain_session :: "editorConfig option" where
  "plain_session =
     session (\<lambda>r. False)
       [Mutate (InsertChar 105), Mutate (InsertChar 102), Find [(''f'', 102)] ''f'' True,
        Save ''notes'' True, Mutate InsertNewline]
       initEditor"

definition go_session :: "editorConfig option" where
  "go_session =
     session (\<lambda>r. False) [Mutate (InsertChar 105), Mutate (InsertChar 102), Save ''a.go'' True]
       initEditor"

text \<open>A string of single-byte characters.\<close>

definition ascii :: "string \<Rightarrow> bool" where
  "ascii s = list_all (\<lambda>c. byte_val c < 128) s"

text \<open>Two rows with a tab: a tab alone, and \<open>a\<close>, tab, \<open>b\<close>.\<close>

definition tab_row :: editorRow where
  "tab_row = \<lparr>idx = 0, raw = [CHR 0x09], render = replicate 8 (CHR '' ''),
               highlight = replicate 8 highlightNormal, highlight_spare = [],
               hasOpenComment = False\<rparr>"

definition a_tab_b_row :: editorRow where
  "a_tab_b_row = \<lparr>idx = 0, raw = [CHR ''a'', CHR 0x09, CHR ''b''],
               render = ''a       b'',
               highlight = replicate 9 highlightNormal, highlight_spare = [],
               hasOpenComment = False\<rparr>"

text \<open>A document typed into the empty editor: \<open>a\<close>, Ctrl-J (the byte 10), \<open>b\<close>.\<close>

definition newline_doc :: "editorConfig option" where
  "newline_doc = run [InsertChar 97, InsertChar 10, InsertChar 98] initEditor"

text \<open>A row whose raw text holds no newline byte.\<close>

definition no_newline :: "editorRow \<Rightarrow> bool" where
  "no_newline r = (CHR 0x0A \<notin> set (raw r))"

text \<open>The scan of a rendered text from fresh tags: the flag at its end and its tags.\<close>

definition flag_after :: "editorSyntax \<Rightarrow> bool \<Rightarrow> string \<Rightarrow> bool" where
  "flag_after syn c rnd =
     isInComment (syntax_pass syn rnd c (replicate (length rnd) highlightNormal))"

definition tags_for :: "editorSyntax \<Rightarrow> bool \<Rightarrow> string \<Rightarrow> editorHighlight list" where
  "tags_for syn c rnd = hl (syntax_pass syn rnd c (replicate (length rnd) highlightNormal))"

text \<open>
  The invariant of the open-comment flags, for the rows from some row on: \<open>c\<close> tells
  whether the end of the row before lies inside a block comment when the rows are
  scanned from the first one on, \<open>stored\<close> is the flag stored in the row before. Every
  row's stored flag is the flag of the scan from the first row on, and every row's
  tags are those of a scan that starts with the flag stored in the row before.
\<close>

fun comment_invariant_from :: "editorSyntax \<Rightarrow> bool \<Rightarrow> bool \<Rightarrow> editorRow list \<Rightarrow> bool" where
  "comment_invariant_from syn c stored [] = True"
| "comment_invariant_from syn c stored (r # rs) =
     (hasOpenComment r = flag_after syn c (render r)
      \<and> highlight r = tags_for syn stored (render r)
      \<and> comment_invariant_from syn (flag_after syn c (render r)) (hasOpenComment r) rs)"

definition comment_invariant :: "editorConfig \<Rightarrow> bool" where
  "comment_invariant e =
     (case syntax e of
        None \<Rightarrow> True
      | Some syn \<Rightarrow> comment_invariant_from syn False False (row e))"

text \<open>The Go file of the three lines \<open>//\<close>, \<open>/*\<close> and \<open>x\<close>, opened.\<close>

definition comment_doc :: "editorConfig option" where
  "comment_doc =
     editorOpen (\<lambda>r. False) ''a.go''
       (Some [CHR ''/'', CHR ''/'', CHR 0x0A, CHR ''/'', CHR ''*'', CHR 0x0A, CHR ''x'', CHR 0x0A])
       initEditor"


text \<open>The rows in the order a forward search with anchor \<open>a\<close> (-1 for none) visits
  them in a document of \<open>n\<close> rows: \<open>a + 1\<close>, \<open>a + 2\<close> and so on, from the last row on to
  row 0, up to row \<open>a\<close> itself: one full pass.\<close>

definition search_order :: "int \<Rightarrow> nat \<Rightarrow> nat list" where
  "search_order a n = map (\<lambda>d. nat ((a + 1 + int d) mod int n)) [0..<n]"

text \<open>The first row, in a given order, whose text contains the query.\<close>

definition first_match :: "string \<Rightarrow> string list \<Rightarrow> nat list \<Rightarrow> nat option" where
  "first_match query texts order = List.find (\<lambda>k. Contains (texts ! k) query) order"

text \<open>The anchor after the key is looked at: a forward navigation key keeps it, any
  other key that is not a backward navigation key resets it.\<close>

definition forward_anchor :: "rune \<Rightarrow> editorConfig \<Rightarrow> int" where
  "forward_anchor key e = (if key = arrowRight \<or> key = arrowDown then lastMatchLine e else - 1)"

text \<open>The document of the rows \<open>abc\<close>, \<open>def\<close>, \<open>abc\<close>.\<close>

definition search_doc :: editorConfig where
  "search_doc =
     initEditor\<lparr>row :=
       [\<lparr>idx = 0, raw = ''abc'', render = ''abc'', highlight = replicate 3 highlightNormal,
         highlight_spare = [], hasOpenComment = False\<rparr>,
        \<lparr>idx = 1, raw = ''def'', render = ''def'', highlight = replicate 3 highlightNormal,
         highlight_spare = [], hasOpenComment = False\<rparr>,
        \<lparr>idx = 2, raw = ''abc'', render = ''abc'', highlight = replicate 3 highlightNormal,
         highlight_spare = [], hasOpenComment = False\<rparr>]\<rparr>"

section \<open>Lemmas on the scan and on editorUpdateSyntax\<close>

lemma length_fill [simp]: "length (fill xs a b v) = length xs"
  by (simp add: fill_def)


lemma syntax_step_length: "syntax_step syn rnd st = (b, st') \<Longrightarrow> length (hl st') = length (hl st)"
  by (auto simp: syntax_step_def Let_def split: if_splits option.splits prod.splits)

lemma scan_loop_length: "length (hl (scan_loop syn rnd st)) = length (hl st)"
proof (induction syn rnd st rule: scan_loop.induct)
  case (1 syn rnd st)
  show ?case
  proof (cases "pos st < length rnd")
    case True
    obtain b st' where s: "syntax_step syn rnd st = (b, st')" by (cases "syntax_step syn rnd st")
    show ?thesis
    proof (cases b)
      case True
      with s \<open>pos st < length rnd\<close> show ?thesis
        by (subst scan_loop.simps) (simp add: syntax_step_length)
    next
      case False
      with s \<open>pos st < length rnd\<close> 1 show ?thesis
        by (subst scan_loop.simps) (simp add: syntax_step_length)
    qed
  next
    case False
    then show ?thesis by (subst scan_loop.simps) simp
  qed
qed

lemma syntax_pass_length [simp]: "length (hl (syntax_pass syn rnd c tags)) = length tags"
  by (simp add: syntax_pass_def scan_loop_length)

lemma length_resize [simp]: "length (highlight (resize_highlight n r)) = n"
  by (simp add: resize_highlight_def)

lemma resize_fields [simp]:
  "idx (resize_highlight n r) = idx r" "raw (resize_highlight n r) = raw r"
  "render (resize_highlight n r) = render r" "hasOpenComment (resize_highlight n r) = hasOpenComment r"
  by (simp_all add: resize_highlight_def)

lemma same_text_refl [simp]: "same_text r r" by (simp add: same_text_def)

lemma syntax_frame_step:
  assumes "p < length (row e)" and "same_text (row e ! p) r'" and "tags_ok r'"
    and "syntax_frame q (e\<lparr>row := (row e)[p := r']\<rparr>) e'"
  shows "syntax_frame p e e'"
proof -
  let ?e1 = "e\<lparr>row := (row e)[p := r']\<rparr>"
  from assms(4) have a: "e' = ?e1\<lparr>row := row e'\<rparr>" and l: "length (row e') = length (row e)"
    and k: "\<forall>k < length (row e). same_text (row ?e1 ! k) (row e' ! k)"
    by (simp_all add: syntax_frame_def)
  have "e' = e\<lparr>row := row e'\<rparr>" using a by simp
  moreover have "same_text (row e ! k) (row e' ! k)" if "k < length (row e)" for k
  proof (cases "k = p")
    case True
    with k that assms(1) have "same_text r' (row e' ! k)" by auto
    with assms(2) True show ?thesis by (auto simp: same_text_def)
  next
    case False
    with k that show ?thesis by auto
  qed
  moreover have "tags_ok (row e' ! p)"
    using k assms(1,3) by (auto simp: same_text_def dest!: spec[where x=p])
  ultimately show ?thesis using l assms(1) by (simp add: syntax_frame_def)
qed

lemma syntax_frame_base:
  assumes "p < length (row e)" and "same_text (row e ! p) r'" and "tags_ok r'"
  shows "syntax_frame p e (e\<lparr>row := (row e)[p := r']\<rparr>)"
  using assms by (auto simp: syntax_frame_def nth_list_update)


lemma highlight_row_fields [simp]:
  "idx (highlight_row syn c r) = idx r" "raw (highlight_row syn c r) = raw r"
  "render (highlight_row syn c r) = render r"
  "length (highlight (highlight_row syn c r)) = length (highlight r)"
  by (simp_all add: highlight_row_def Let_def)

lemma update_body_cases:
  assumes "(if p < length (row e) then
        (let r = resize_highlight (length (render (row e ! p))) (row e ! p) in
         case syntax e of
           None \<Rightarrow> Some (e\<lparr>row := (row e)[p := r]\<rparr>)
         | Some syn \<Rightarrow>
             Option.bind (prevOpenComment e r)
               (\<lambda>inComment.
                  let r' = highlight_row syn inComment r;
                      changed = (hasOpenComment r' \<noteq> hasOpenComment r);
                      e' = e\<lparr>row := (row e)[p := r']\<rparr>
                  in if changed \<and> idx r + 1 < int (length (row e))
                     then Option.bind (row_ptr e' (idx r + 1)) (\<lambda>q. f q e')
                     else Some e'))
      else None) = Some e2"
  obtains
    (plain) "p < length (row e)" "syntax e = None"
      "e2 = e\<lparr>row := (row e)[p := resize_highlight (length (render (row e ! p))) (row e ! p)]\<rparr>"
  | (stop) syn c where "p < length (row e)" "syntax e = Some syn"
      "prevOpenComment e (resize_highlight (length (render (row e ! p))) (row e ! p)) = Some c"
      "e2 = e\<lparr>row := (row e)[p := highlight_row syn c
                 (resize_highlight (length (render (row e ! p))) (row e ! p))]\<rparr>"
      "\<not> (hasOpenComment (highlight_row syn c
                 (resize_highlight (length (render (row e ! p))) (row e ! p)))
            \<noteq> hasOpenComment (row e ! p) \<and> idx (row e ! p) + 1 < int (length (row e)))"
  | (further) syn c q where "p < length (row e)" "syntax e = Some syn"
      "prevOpenComment e (resize_highlight (length (render (row e ! p))) (row e ! p)) = Some c"
      "hasOpenComment (highlight_row syn c
                 (resize_highlight (length (render (row e ! p))) (row e ! p)))
            \<noteq> hasOpenComment (row e ! p)"
      "idx (row e ! p) + 1 < int (length (row e))"
      "q = nat (idx (row e ! p) + 1)" "0 \<le> idx (row e ! p) + 1"
      "f q (e\<lparr>row := (row e)[p := highlight_row syn c
                 (resize_highlight (length (render (row e ! p))) (row e ! p))]\<rparr>) = Some e2"
proof -
  from assms have p: "p < length (row e)" by (simp split: if_splits)
  let ?r = "resize_highlight (length (render (row e ! p))) (row e ! p)"
  show thesis
  proof (cases "syntax e")
    case None
    with assms p plain show ?thesis by (simp add: Let_def)
  next
    case (Some syn)
    with assms p obtain c where c: "prevOpenComment e ?r = Some c"
      by (cases "prevOpenComment e ?r") (simp_all add: Let_def)
    let ?r' = "highlight_row syn c ?r"
    let ?e' = "e\<lparr>row := (row e)[p := ?r']\<rparr>"
    show ?thesis
    proof (cases "hasOpenComment ?r' \<noteq> hasOpenComment (row e ! p) \<and> idx (row e ! p) + 1 < int (length (row e))")
      case False
      with assms p Some c have "e2 = ?e'" by (auto simp: Let_def)
      with stop[OF p Some c] False show ?thesis by blast
    next
      case True
      with assms p Some c have b: "Option.bind (row_ptr ?e' (idx (row e ! p) + 1)) (\<lambda>q. f q ?e') = Some e2"
        by (auto simp: Let_def)
      then obtain q where q: "row_ptr ?e' (idx (row e ! p) + 1) = Some q" "f q ?e' = Some e2"
        by (cases "row_ptr ?e' (idx (row e ! p) + 1)") simp_all
      from q(1) have "q = nat (idx (row e ! p) + 1)" "0 \<le> idx (row e ! p) + 1"
        by (auto simp: row_ptr_def split: if_splits)
      with further[OF p Some c] True q(2) show ?thesis by blast
    qed
  qed
qed

lemma editorUpdateSyntax_frame:
  assumes "editorUpdateSyntax p e = Some e'"
  shows "syntax_frame p e e'"
proof (rule editorUpdateSyntax.raw_induct[rotated 1, OF assms])
  fix upd :: "nat \<Rightarrow> editorConfig \<Rightarrow> editorConfig option" and p and e e' :: editorConfig
  assume IH: "\<And>q e1 y. upd q e1 = Some y \<Longrightarrow> syntax_frame q e1 y"
  let ?r = "resize_highlight (length (render (row e ! p))) (row e ! p)"
  have r1: "same_text (row e ! p) ?r" "tags_ok ?r"
    by (simp_all add: same_text_def tags_ok_def)
  have r2: "same_text (row e ! p) (highlight_row syn c ?r)" "tags_ok (highlight_row syn c ?r)" for syn c
    by (simp_all add: same_text_def tags_ok_def)
  assume "(if p < length (row e) then
        (let r = resize_highlight (length (render (row e ! p))) (row e ! p) in
         case syntax e of
           None \<Rightarrow> Some (e\<lparr>row := (row e)[p := r]\<rparr>)
         | Some syn \<Rightarrow>
             Option.bind (prevOpenComment e r)
               (\<lambda>inComment.
                  let r' = highlight_row syn inComment r;
                      changed = (hasOpenComment r' \<noteq> hasOpenComment r);
                      e' = e\<lparr>row := (row e)[p := r']\<rparr>
                  in if changed \<and> idx r + 1 < int (length (row e))
                     then Option.bind (row_ptr e' (idx r + 1)) (\<lambda>q. upd q e')
                     else Some e'))
      else None) = Some e'"
  then show "syntax_frame p e e'"
  proof (cases rule: update_body_cases)
    case plain
    with syntax_frame_base[OF _ r1] show ?thesis by simp
  next
    case (stop syn c)
    with syntax_frame_base[OF _ r2] show ?thesis by simp
  next
    case (further syn c q)
    from IH[OF further(8)] syntax_frame_step[OF further(1) r2] show ?thesis by blast
  qed
qed

section \<open>Properties of the key decoder\<close>

text \<open>
  C7. The bytes ESC, \<open>[\<close>, \<open>A\<close> decode to arrow-up; ESC, \<open>[\<close>, \<open>3\<close>, \<open>~\<close> decode to
  delete; and an ESC whose first, second or (after a digit) third follow-up read
  fails, by timeout or by an error, decodes to the bare escape: the call returns
  and does not die.
\<close>

theorem C7_escape_decode:
  "editorReadKey (Byte (CHR 0x1B) # Byte (CHR ''['') # Byte (CHR ''A'') # inp)
     = Returned arrowUp inp
   \<and> editorReadKey (Byte (CHR 0x1B) # Byte (CHR ''['') # Byte (CHR ''3'') # Byte (CHR ''~'') # inp)
     = Returned delete_key inp
   \<and> editorReadKey [Byte (CHR 0x1B)] = Returned escape []
   \<and> editorReadKey (Byte (CHR 0x1B) # EOF # inp) = Returned escape inp
   \<and> editorReadKey (Byte (CHR 0x1B) # ReadErr # inp) = Returned escape inp
   \<and> editorReadKey [Byte (CHR 0x1B), Byte s0] = Returned escape []
   \<and> editorReadKey (Byte (CHR 0x1B) # Byte s0 # EOF # inp) = Returned escape inp
   \<and> editorReadKey (Byte (CHR 0x1B) # Byte s0 # ReadErr # inp) = Returned escape inp
   \<and> editorReadKey [Byte (CHR 0x1B), Byte (CHR ''[''), Byte (CHR ''3'')] = Returned escape []
   \<and> editorReadKey (Byte (CHR 0x1B) # Byte (CHR ''['') # Byte (CHR ''3'') # EOF # inp)
     = Returned escape inp
   \<and> editorReadKey (Byte (CHR 0x1B) # Byte (CHR ''['') # Byte (CHR ''3'') # ReadErr # inp)
     = Returned escape inp"
  by (simp add: readEscape_def decodeSeq_def rune_of_byte_def byte_val_def escape_def)

lemma rows_indexed_nth: "rows_indexed rs \<longleftrightarrow> (\<forall>k < length rs. idx (rs ! k) = int k)"
proof
  assume a: "rows_indexed rs"
  show "\<forall>k < length rs. idx (rs ! k) = int k"
  proof (intro allI impI)
    fix k assume k: "k < length rs"
    have "idx (rs ! k) = map idx rs ! k" using k by simp
    also have "\<dots> = map int [0..<length rs] ! k" using a by (simp only: rows_indexed_def)
    also have "\<dots> = int k" using k by simp
    finally show "idx (rs ! k) = int k" .
  qed
next
  assume a: "\<forall>k < length rs. idx (rs ! k) = int k"
  show "rows_indexed rs"
    unfolding rows_indexed_def
    by (rule nth_equalityI) (use a in simp_all)
qed

lemma rows_indexed_update:
  assumes "rows_indexed rs" and "idx r = idx (rs ! p)"
  shows "rows_indexed (rs[p := r])"
  unfolding rows_indexed_nth
proof (intro allI impI)
  fix k assume "k < length (rs[p := r])"
  then have k: "k < length rs" by simp
  with assms show "idx (rs[p := r] ! k) = int k"
    by (cases "k = p") (simp_all add: rows_indexed_nth)
qed

lemma editorUpdateSyntax_total:
  "rows_indexed (row e) \<Longrightarrow> p < length (row e) \<Longrightarrow> \<exists>e'. editorUpdateSyntax p e = Some e'"
proof (induction "length (row e) - p" arbitrary: p e rule: less_induct)
  case less
  let ?r = "resize_highlight (length (render (row e ! p))) (row e ! p)"
  from less.prems have ix: "idx (row e ! p) = int p" by (simp add: rows_indexed_nth)
  show ?case
  proof (cases "syntax e")
    case None
    with less.prems show ?thesis by (subst editorUpdateSyntax.simps) (simp add: Let_def)
  next
    case (Some syn)
    have "\<exists>c. prevOpenComment e ?r = Some c"
      using less.prems ix by (cases "p = 0") (auto simp: prevOpenComment_def row_at_def)
    then obtain c where c: "prevOpenComment e ?r = Some c" ..
    let ?r' = "highlight_row syn c ?r"
    let ?e' = "e\<lparr>row := (row e)[p := ?r']\<rparr>"
    show ?thesis
    proof (cases "hasOpenComment ?r' \<noteq> hasOpenComment (row e ! p) \<and> idx (row e ! p) + 1 < int (length (row e))")
      case False
      with less.prems Some c show ?thesis
        by (subst editorUpdateSyntax.simps) (auto simp: Let_def)
    next
      case True
      with ix have q: "Suc p < length (row e)" by simp
      have "rows_indexed (row ?e')" using less.prems(1) by (simp add: rows_indexed_update)
      moreover have "length (row ?e') - Suc p < length (row e) - p" using q by simp
      moreover have "Suc p < length (row ?e')" using q by simp
      ultimately obtain e2 where e2: "editorUpdateSyntax (Suc p) ?e' = Some e2"
        using less.hyps[of ?e' "Suc p"] by blast
      have ptr: "row_ptr ?e' (idx (row e ! p) + 1) = Some (Suc p)"
        using q ix by (simp add: row_ptr_def nat_add_distrib)
      from less.prems Some c True ptr e2 show ?thesis
        by (subst editorUpdateSyntax.simps) (auto simp: Let_def)
    qed
  qed
qed

lemma syntax_frame_indexed:
  "syntax_frame p e e' \<Longrightarrow> rows_indexed (row e) \<Longrightarrow> rows_indexed (row e')"
  by (auto simp: syntax_frame_def rows_indexed_nth same_text_def)

section \<open>Cursor movement stays within the document\<close>

lemma cursor_switch_range:
  assumes "0 \<le> cy e" and "cy e \<le> int (length (row e))" and "0 \<le> cx e"
  shows "\<exists>e1. cursor_switch key line e = Some e1 \<and> row e1 = row e
           \<and> 0 \<le> cy e1 \<and> cy e1 \<le> int (length (row e)) \<and> 0 \<le> cx e1"
  using assms
  by (cases "key = arrowUp"; cases "key = arrowLeft"; cases "key = arrowDown";
      cases "key = arrowRight"; cases "cx e = 0"; cases "cy e = 0")
     (auto simp: cursor_switch_def row_at_def Suc_le_eq)

lemma cursor_clamp_range:
  assumes "0 \<le> cy e" and "cy e \<le> int (length (row e))" and "0 \<le> cx e"
  shows "\<exists>e'. cursor_clamp e = Some e' \<and> row e' = row e \<and> cy e' = cy e \<and> 0 \<le> cx e'
           \<and> (if cy e < int (length (row e))
               then cx e' \<le> int (length (raw (row e ! nat (cy e)))) else cx e' = 0)"
  using assms by (simp add: cursor_clamp_def row_at_def)

lemma cursor_line_some:
  assumes "0 \<le> cy e"
  shows "\<exists>line. cursor_line e = Some line"
  using assms by (simp add: cursor_line_def row_at_def)

text \<open>
  C10. When the cursor row lies between 0 and the number of rows and the cursor column
  is not negative, \<^const>\<open>editorMoveCursor\<close> returns for every key, leaves the rows as
  they are, and leaves the cursor row between 0 and the number of rows and the cursor
  column between 0 and the length of the raw text of the cursor's row; the column is
  0 on the line after the last row.
\<close>

theorem C10_cursor_in_range:
  assumes "0 \<le> cy e" and "cy e \<le> int (length (row e))" and "0 \<le> cx e"
  shows "\<exists>e'. editorMoveCursor key e = Some e' \<and> row e' = row e
           \<and> 0 \<le> cy e' \<and> cy e' \<le> int (length (row e)) \<and> 0 \<le> cx e'
           \<and> (if cy e' < int (length (row e))
               then cx e' \<le> int (length (raw (row e ! nat (cy e')))) else cx e' = 0)"
proof -
  from cursor_line_some[OF assms(1)] obtain line where l: "cursor_line e = Some line" ..
  from cursor_switch_range[OF assms, of key line] obtain e1 where
    e1: "cursor_switch key line e = Some e1" "row e1 = row e" "0 \<le> cy e1"
        "cy e1 \<le> int (length (row e))" "0 \<le> cx e1" by blast
  have "\<exists>e'. cursor_clamp e1 = Some e' \<and> row e' = row e1 \<and> cy e' = cy e1 \<and> 0 \<le> cx e'
           \<and> (if cy e1 < int (length (row e1))
               then cx e' \<le> int (length (raw (row e1 ! nat (cy e1)))) else cx e' = 0)"
    using e1 by (intro cursor_clamp_range) simp_all
  then obtain e' where
    e': "cursor_clamp e1 = Some e'" "row e' = row e" "cy e' = cy e1" "0 \<le> cx e'"
        "if cy e1 < int (length (row e))
         then cx e' \<le> int (length (raw (row e ! nat (cy e1)))) else cx e' = 0"
    unfolding e1(2) by blast
  from l e1(1) e'(1) have "editorMoveCursor key e = Some e'"
    by (simp add: editorMoveCursor_def)
  with e' e1 show ?thesis by simp
qed

theorem C10_cursor_in_range_witness:
  "0 \<le> cy cursor_doc \<and> cy cursor_doc \<le> int (length (row cursor_doc)) \<and> 0 \<le> cx cursor_doc
   \<and> (\<exists>e'. editorMoveCursor arrowDown cursor_doc = Some e' \<and> cy e' = 1 \<and> cx e' = 1)"
  using C10_cursor_in_range[of cursor_doc arrowDown]
  by (simp add: cursor_doc_def initEditor_def editorMoveCursor_def cursor_line_def cursor_switch_def cursor_clamp_def row_at_def arrowDown_def arrowUp_def arrowLeft_def)

section \<open>Rendering and editorUpdateRow\<close>

lemma byte_val_less: "byte_val c < 256"
  unfolding byte_val_def by (cases c) simp

lemma length_AppendRune:
  "length (AppendRune r) =
     (if 0 \<le> r \<and> r \<le> 127 then 1 else if 0 \<le> r \<and> r \<le> 2047 then 2
      else if r < 0 \<or> 1114111 < r \<or> (55296 \<le> r \<and> r \<le> 57343) then 3
      else if r \<le> 65535 then 3 else 4)"
  by (simp add: AppendRune_def)

lemma decode_width:
  assumes "DecodeRuneInString (c # s) = (r, w)"
  shows "1 \<le> w \<and> w \<le> length (AppendRune r) \<and> (r = 9 \<longrightarrow> w = 1)"
proof -
  have b: "byte_val c < 256" by (rule byte_val_less)
  have bs: "\<And>d. byte_val d < 256" by (rule byte_val_less)
  show ?thesis
    using assms b
    by (auto simp: Let_def RuneError_def in_bytes_def length_AppendRune
             split: if_splits list.splits)
qed


lemma render_loop_length:
  "length s \<le> skip + length (render_loop k (range_runes skip off s))"
proof (induction s arbitrary: skip off k)
  case Nil
  show ?case by simp
next
  case (Cons c s)
  show ?case
  proof (cases "0 < skip")
    case True
    with Cons.IH[where skip = "skip - 1" and off = "Suc off" and k = k] show ?thesis by simp
  next
    case False
    obtain r w where d: "DecodeRuneInString (c # s) = (r, w)"
      by (cases "DecodeRuneInString (c # s)")
    from decode_width[OF d] have w: "1 \<le> w" "w \<le> length (AppendRune r)" "r = 9 \<longrightarrow> w = 1"
      by simp_all
    have t: "0 < tabStop - k mod tabStop" by (simp add: tabStop_def)
    show ?thesis
    proof (cases "r = 9")
      case True
      with w have w1: "w = 1" by simp
      from Cons.IH[where skip = 0 and off = "Suc off" and k = "k + (tabStop - k mod tabStop)"]
        False d True w1 t
      show ?thesis by simp
    next
      case r: False
      from Cons.IH[where skip = "w - 1" and off = "Suc off" and k = "k + 1"] False d r w
      show ?thesis by simp
    qed
  qed
qed

lemma render_of_length: "length s \<le> length (render_of s)"
  using render_loop_length[of s 0 0 0] by (simp add: render_of_def)

lemma same_text_lengths_ok:
  "same_text r r' \<Longrightarrow> row_lengths_ok r \<Longrightarrow> row_lengths_ok r'"
  by (simp add: same_text_def row_lengths_ok_def tags_ok_def)

text \<open>What \<^const>\<open>editorUpdateRow\<close> on row \<open>p\<close> does to the rows.\<close>

lemma editorUpdateRow_frame:
  assumes "editorUpdateRow p e = Some e'"
  shows "e' = e\<lparr>row := row e'\<rparr>" and "length (row e') = length (row e)" and "p < length (row e)"
    and "\<And>k. k < length (row e) \<Longrightarrow> k \<noteq> p \<Longrightarrow> same_text (row e ! k) (row e' ! k)"
    and "idx (row e' ! p) = idx (row e ! p)" and "raw (row e' ! p) = raw (row e ! p)"
    and "render (row e' ! p) = render_of (raw (row e ! p))" and "tags_ok (row e' ! p)"
proof -
  from assms have p: "p < length (row e)" by (simp add: editorUpdateRow_def split: if_splits)
  let ?e1 = "e\<lparr>row := (row e)[p := (row e ! p)\<lparr>render := render_of (raw (row e ! p))\<rparr>]\<rparr>"
  from assms p have "editorUpdateSyntax p ?e1 = Some e'" by (simp add: editorUpdateRow_def)
  from editorUpdateSyntax_frame[OF this]
  have f: "e' = ?e1\<lparr>row := row e'\<rparr>" "length (row e') = length (row e)"
    "\<forall>k < length (row e). same_text (row ?e1 ! k) (row e' ! k)" "tags_ok (row e' ! p)"
    by (simp_all add: syntax_frame_def)
  show "e' = e\<lparr>row := row e'\<rparr>" using f(1) by simp
  show "length (row e') = length (row e)" by fact
  show "p < length (row e)" by fact
  show "tags_ok (row e' ! p)" by fact
  show "same_text (row e ! k) (row e' ! k)" if "k < length (row e)" "k \<noteq> p" for k
    using f(3) that by auto
  from f(3) p have "same_text (row ?e1 ! p) (row e' ! p)" by blast
  with p show "idx (row e' ! p) = idx (row e ! p)" "raw (row e' ! p) = raw (row e ! p)"
    "render (row e' ! p) = render_of (raw (row e ! p))"
    by (simp_all add: same_text_def)
qed

lemma editorUpdateRow_lengths_ok:
  assumes "editorUpdateRow p e = Some e'"
    and "list_all row_lengths_ok (take p (row e))"
    and "list_all row_lengths_ok (drop (Suc p) (row e))"
  shows "list_all row_lengths_ok (row e')"
proof -
  note f = editorUpdateRow_frame[OF assms(1)]
  have "row_lengths_ok (row e' ! k)" if k: "k < length (row e')" for k
  proof (cases "k = p")
    case True
    with f(6,7,8) render_of_length[of "raw (row e ! p)"] show ?thesis
      by (simp add: row_lengths_ok_def tags_ok_def)
  next
    case False
    from k f(2) have k': "k < length (row e)" by simp
    have "row_lengths_ok (row e ! k)"
    proof (cases "k < p")
      case True
      with assms(2) k' have "row_lengths_ok (take p (row e) ! k)"
        by (simp add: list_all_length)
      with True show ?thesis by simp
    next
      case ge: False
      with False have "Suc p \<le> k" by simp
      then obtain j where j: "k = Suc p + j" using le_Suc_ex by blast
      with assms(3) k' have "row_lengths_ok (drop (Suc p) (row e) ! j)"
        by (simp add: list_all_length)
      with j k' show ?thesis by simp
    qed
    with same_text_lengths_ok[OF f(4)[OF k' False]] show ?thesis by simp
  qed
  then show ?thesis by (simp add: list_all_length)
qed

lemma list_all_take_drop:
  "list_all P xs \<Longrightarrow> list_all P (take n xs) \<and> list_all P (drop n xs)"
  by (auto simp: list_all_iff dest: in_set_takeD in_set_dropD)

lemma editorUpdateRow_total:
  assumes "rows_indexed (row e)" and "p < length (row e)"
  shows "\<exists>e'. editorUpdateRow p e = Some e'"
proof -
  let ?e1 = "e\<lparr>row := (row e)[p := (row e ! p)\<lparr>render := render_of (raw (row e ! p))\<rparr>]\<rparr>"
  have "rows_indexed (row ?e1)" using assms(1) by (simp add: rows_indexed_update)
  moreover have "p < length (row ?e1)" using assms(2) by simp
  ultimately obtain e' where "editorUpdateSyntax p ?e1 = Some e'"
    using editorUpdateSyntax_total by blast
  with assms(2) show ?thesis by (simp add: editorUpdateRow_def)
qed

lemma editorUpdateRow_indexed:
  assumes "editorUpdateRow p e = Some e'" and "rows_indexed (row e)"
  shows "rows_indexed (row e')"
  unfolding rows_indexed_nth
proof (intro allI impI)
  note f = editorUpdateRow_frame[OF assms(1)]
  fix k assume "k < length (row e')"
  with f(2) have k: "k < length (row e)" by simp
  show "idx (row e' ! k) = int k"
  proof (cases "k = p")
    case True
    with f(5) assms(2) k show ?thesis by (simp add: rows_indexed_nth)
  next
    case False
    from f(4)[OF k False] assms(2) k show ?thesis by (simp add: rows_indexed_nth same_text_def)
  qed
qed

section \<open>The length invariant of the rows\<close>

lemma set_raw_simps [simp]:
  "length (row (set_raw p s e)) = length (row e)"
  "take p (row (set_raw p s e)) = take p (row e)"
  "drop (Suc p) (row (set_raw p s e)) = drop (Suc p) (row e)"
  by (simp_all add: set_raw_def)

lemma set_dirty_row [simp]: "row (set_dirty e) = row e"
  by (simp add: set_dirty_def)

lemma lengths_ok_idx [simp]: "row_lengths_ok (r\<lparr>idx := k\<rparr>) = row_lengths_ok r"
  by (simp add: row_lengths_ok_def)

lemma editorInsertRow_lengths_ok:
  assumes "editorInsertRow at line e = Some e'" and "list_all row_lengths_ok (row e)"
  shows "list_all row_lengths_ok (row e')"
proof -
  let ?rows = "take (nat at) (row e)
                 @ [\<lparr>idx = at, raw = line, render = [], highlight = [],
                     highlight_spare = [], hasOpenComment = False\<rparr>]
                 @ map (\<lambda>r. r\<lparr>idx := idx r + 1\<rparr>) (drop (nat at) (row e))"
  from assms(1) have at: "0 \<le> at" "at \<le> int (length (row e))"
    by (simp_all add: editorInsertRow_def split: if_splits)
  with assms(1) obtain e1 where e1: "editorUpdateRow (nat at) (e\<lparr>row := ?rows\<rparr>) = Some e1"
    and e': "e' = set_dirty e1"
    by (auto simp: editorInsertRow_def)
  from at have l: "length (take (nat at) (row e)) = nat at" by simp
  have t: "take (nat at) ?rows = take (nat at) (row e)" using l by simp
  have d: "drop (Suc (nat at)) ?rows = map (\<lambda>r. r\<lparr>idx := idx r + 1\<rparr>) (drop (nat at) (row e))"
    using l by simp
  from list_all_take_drop[OF assms(2), of "nat at"]
  have "list_all row_lengths_ok (take (nat at) ?rows)"
    and "list_all row_lengths_ok (drop (Suc (nat at)) ?rows)"
    unfolding t d by (simp_all add: list_all_iff)
  with editorUpdateRow_lengths_ok[OF e1] e' show ?thesis by simp
qed

lemma editorDelRow_lengths_ok:
  assumes "editorDelRow at e = Some e'" and "list_all row_lengths_ok (row e)"
  shows "list_all row_lengths_ok (row e')"
proof (cases "at < 0 \<or> int (length (row e)) \<le> at")
  case True
  with assms show ?thesis by (simp add: editorDelRow_def)
next
  case False
  with assms(1) have "row e' = take (nat at) (row e)
      @ map (\<lambda>r. r\<lparr>idx := idx r - 1\<rparr>) (drop (nat at + 1) (row e))"
    by (auto simp: editorDelRow_def)
  with list_all_take_drop[OF assms(2), of "nat at"] list_all_take_drop[OF assms(2), of "nat at + 1"]
  show ?thesis by (auto simp: list_all_iff)
qed

lemma set_raw_update_lengths_ok:
  assumes "editorUpdateRow p (set_raw p s e) = Some e'" and "list_all row_lengths_ok (row e)"
  shows "list_all row_lengths_ok (row e')"
  using editorUpdateRow_lengths_ok[OF assms(1)] list_all_take_drop[OF assms(2)]
  by simp

lemma editorRowInsertChar_lengths_ok:
  assumes "editorRowInsertChar p at c e = Some e'" and "list_all row_lengths_ok (row e)"
  shows "list_all row_lengths_ok (row e')"
  using assms set_raw_update_lengths_ok
  by (auto simp: editorRowInsertChar_def Let_def split: if_splits)

lemma editorRowAppendString_lengths_ok:
  assumes "editorRowAppendString p s e = Some e'" and "list_all row_lengths_ok (row e)"
  shows "list_all row_lengths_ok (row e')"
  using assms set_raw_update_lengths_ok
  by (auto simp: editorRowAppendString_def split: if_splits)

lemma editorRowDelChar_lengths_ok:
  assumes "editorRowDelChar p at e = Some e'" and "list_all row_lengths_ok (row e)"
  shows "list_all row_lengths_ok (row e')"
  using assms set_raw_update_lengths_ok
  by (auto simp: editorRowDelChar_def Let_def split: if_splits)

lemma editorInsertChar_lengths_ok:
  assumes "editorInsertChar c e = Some e'" and "list_all row_lengths_ok (row e)"
  shows "list_all row_lengths_ok (row e')"
proof -
  from assms(1) obtain e1 p e2 where
    e1: "(if cy e = int (length (row e)) then editorInsertRow (int (length (row e))) [] e
          else Some e) = Some e1"
    and e2: "editorRowInsertChar p (cx e1) c e1 = Some e2" and e': "e' = e2\<lparr>cx := cx e2 + 1\<rparr>"
    by (auto simp: editorInsertChar_def split: Option.bind_splits)
  from e1 assms(2) editorInsertRow_lengths_ok have "list_all row_lengths_ok (row e1)"
    by (auto split: if_splits)
  with editorRowInsertChar_lengths_ok[OF e2] e' show ?thesis by simp
qed

lemma editorDelChar_lengths_ok:
  assumes "editorDelChar e = Some e'" and "list_all row_lengths_ok (row e)"
  shows "list_all row_lengths_ok (row e')"
proof (cases "cy e = int (length (row e)) \<or> (cx e = 0 \<and> cy e = 0)")
  case True
  with assms show ?thesis by (simp add: editorDelChar_def)
next
  case False
  with assms(1) obtain p where p: "row_ptr e (cy e) = Some p"
    by (auto simp: editorDelChar_def split: Option.bind_splits)
  show ?thesis
  proof (cases "0 < cx e")
    case True
    with assms(1) False p obtain e1 where "editorRowDelChar p (cx e - 1) e = Some e1"
      and "e' = e1\<lparr>cx := cx e1 - 1\<rparr>"
      by (auto simp: editorDelChar_def)
    with editorRowDelChar_lengths_ok[OF _ assms(2)] show ?thesis by simp
  next
    case c0: False
    with assms(1) False p obtain q e2 e3 where
      e2: "editorRowAppendString q (raw (row e ! p)) (e\<lparr>cx := int (length (raw (row e ! q)))\<rparr>) = Some e2"
      and e3: "editorDelRow (cy e2) e2 = Some e3" and e': "e' = e3\<lparr>cy := cy e3 - 1\<rparr>"
      by (auto simp: editorDelChar_def split: Option.bind_splits)
    from editorRowAppendString_lengths_ok[OF e2] assms(2)
    have "list_all row_lengths_ok (row e2)" by simp
    from editorDelRow_lengths_ok[OF e3 this] e' show ?thesis by simp
  qed
qed

lemma editorInsertNewline_lengths_ok:
  assumes "editorInsertNewline e = Some e'" and "list_all row_lengths_ok (row e)"
  shows "list_all row_lengths_ok (row e')"
proof (cases "cx e = 0")
  case True
  with assms(1) obtain e1 where "editorInsertRow (cy e) [] e = Some e1"
    and "e' = e1\<lparr>cy := cy e1 + 1, cx := 0\<rparr>"
    by (auto simp: editorInsertNewline_def)
  with editorInsertRow_lengths_ok[OF _ assms(2)] show ?thesis by simp
next
  case False
  with assms(1) obtain p rest e1 p1 front e2 where
    e1: "editorInsertRow (cy e + 1) rest e = Some e1"
    and e2: "editorUpdateRow p1 (set_raw p1 front e1) = Some e2"
    and e': "e' = e2\<lparr>cy := cy e2 + 1, cx := 0\<rparr>"
    by (auto simp: editorInsertNewline_def split: Option.bind_splits)
  from editorInsertRow_lengths_ok[OF e1 assms(2)]
  have "list_all row_lengths_ok (row e1)" .
  from set_raw_update_lengths_ok[OF e2 this] e' show ?thesis by simp
qed

lemma mutate_lengths_ok:
  assumes "mutate m e = Some e'" and "list_all row_lengths_ok (row e)"
  shows "list_all row_lengths_ok (row e')"
  using assms
  by (cases m)
     (auto split: Option.bind_splits
           intro: editorInsertRow_lengths_ok editorDelRow_lengths_ok
                  editorRowInsertChar_lengths_ok editorRowAppendString_lengths_ok
                  editorRowDelChar_lengths_ok editorInsertChar_lengths_ok
                  editorDelChar_lengths_ok editorInsertNewline_lengths_ok)

text \<open>
  C5. After any sequence of mutations that starts in a document whose rows all have as
  many highlight tags as rendered characters and a rendered text at least as long as
  the raw text (the empty document is one), every row has as many highlight tags as
  rendered characters, and its rendered text is at least as long as its raw text.
\<close>

theorem C5_row_lengths:
  assumes "run ms e = Some e'" and "list_all row_lengths_ok (row e)"
  shows "list_all row_lengths_ok (row e')"
  using assms
proof (induction ms arbitrary: e)
  case Nil
  then show ?case by simp
next
  case (Cons m ms)
  from Cons.prems(1) obtain e1 where m: "mutate m e = Some e1" and r: "run ms e1 = Some e'"
    by (auto split: Option.bind_splits)
  from mutate_lengths_ok[OF m Cons.prems(2)] Cons.IH[OF r] show ?case by blast
qed

theorem C5_row_lengths_witness:
  "list_all row_lengths_ok (row (initEditor\<lparr>syntax := Some goSyntax\<rparr>))
   \<and> (case typed_doc of
         None \<Rightarrow> False
       | Some e' \<Rightarrow>
           map (\<lambda>r. (length (raw r), length (render r), length (highlight r))) (row e')
             = [(2, 9, 9), (0, 0, 0)]
           \<and> list_all row_lengths_ok (row e'))"
proof -
  have i: "list_all row_lengths_ok (row (initEditor\<lparr>syntax := Some goSyntax\<rparr>))"
    by (simp add: initEditor_def)
  have ev: "(case typed_doc of
               None \<Rightarrow> False
             | Some e' \<Rightarrow>
                 map (\<lambda>r. (length (raw r), length (render r), length (highlight r))) (row e')
                   = [(2, 9, 9), (0, 0, 0)])"
    by code_simp
  then obtain e' where e': "typed_doc = Some e'" by (cases typed_doc) simp_all
  from ev have m: "map (\<lambda>r. (length (raw r), length (render r), length (highlight r))) (row e')
      = [(2, 9, 9), (0, 0, 0)]"
    unfolding e' by simp
  from C5_row_lengths[OF e'[unfolded typed_doc_def] i] m i show ?thesis
    unfolding e' by simp
qed

section \<open>Indices out of range\<close>

lemma set_raw_indexed: "rows_indexed (row e) \<Longrightarrow> rows_indexed (row (set_raw p s e))"
  by (simp add: set_raw_def rows_indexed_update)

lemma set_raw_update_raws:
  assumes "editorUpdateRow p (set_raw p s e) = Some e'"
  shows "map raw (row e') = (map raw (row e))[p := s]"
proof (rule nth_equalityI)
  note f = editorUpdateRow_frame[OF assms]
  from f(3) have p: "p < length (row e)" by simp
  show "length (map raw (row e')) = length ((map raw (row e))[p := s])" using f(2) by simp
  fix k assume "k < length (map raw (row e'))"
  with f(2) have k: "k < length (row e)" by simp
  show "map raw (row e') ! k = (map raw (row e))[p := s] ! k"
  proof (cases "k = p")
    case True
    with f(6) p f(2) show ?thesis by (simp add: set_raw_def)
  next
    case False
    from f(4)[of k] k False have "raw (row e' ! k) = raw (row e ! k)"
      by (simp add: same_text_def set_raw_def)
    with k False f(2) show ?thesis by simp
  qed
qed

text \<open>A rune that \<^const>\<open>editorReadKey\<close> returns has an encoding, so the count given to
  \<^verbatim>\<open>Grow\<close> in \<^const>\<open>editorRowInsertChar\<close> is not negative for it.\<close>

lemma RuneLen_byte: "0 < RuneLen (rune_of_byte c)"
  using byte_val_less[of c] by (simp add: RuneLen_def rune_of_byte_def)

lemma RuneLen_escape: "0 < RuneLen escape"
  by (simp add: RuneLen_def escape_def)

lemma decodeSeq_RuneLen: "decodeSeq s0 s1 inp = Returned k rest \<Longrightarrow> 0 < RuneLen k"
  by (auto simp: decodeSeq_def RuneLen_def home_def end_key_def delete_key_def pageUp_def
                 pageDown_def escape_def arrowUp_def arrowDown_def arrowLeft_def arrowRight_def
           split: if_splits prod.splits read_result.splits)

lemma readEscape_RuneLen: "readEscape inp = Returned k rest \<Longrightarrow> 0 < RuneLen k"
  by (auto simp: readEscape_def RuneLen_escape
           split: prod.splits read_result.splits dest: decodeSeq_RuneLen)

lemma editorReadKey_RuneLen: "editorReadKey inp = Returned k rest \<Longrightarrow> 0 < RuneLen k"
  by (induction inp rule: editorReadKey.induct)
     (auto simp: RuneLen_byte split: if_splits dest: readEscape_RuneLen)

text \<open>The panic of \<^verbatim>\<open>Grow\<close>: a rune without an encoding put into an empty row, at
  whatever column.\<close>

lemma editorRowInsertChar_negative_count:
  assumes "p < length (row e)" and "int (length (raw (row e ! p))) + RuneLen c < 0"
  shows "editorRowInsertChar p at c e = None"
  using assms by (simp add: editorRowInsertChar_def Let_def)

lemma editorRowInsertChar_clamped:
  assumes "p < length (row e)" and "rows_indexed (row e)"
    and "at < 0 \<or> int (length (raw (row e ! p))) < at"
    and "0 \<le> int (length (raw (row e ! p))) + RuneLen c"
  shows "\<exists>e'. editorRowInsertChar p at c e = Some e'
           \<and> editorRowInsertChar p (int (length (raw (row e ! p)))) c e = Some e'
           \<and> map raw (row e') = (map raw (row e))[p := raw (row e ! p) @ AppendRune c]"
proof -
  let ?s = "raw (row e ! p) @ AppendRune c"
  from editorUpdateRow_total[of "set_raw p ?s e" p] assms(1,2)
  obtain e1 where e1: "editorUpdateRow p (set_raw p ?s e) = Some e1"
    using set_raw_indexed by auto
  from e1 assms(1,3,4) have a: "editorRowInsertChar p at c e = Some (set_dirty e1)"
    by (auto simp: editorRowInsertChar_def Let_def)
  from e1 assms(1,4) have b: "editorRowInsertChar p (int (length (raw (row e ! p)))) c e = Some (set_dirty e1)"
    by (simp add: editorRowInsertChar_def Let_def)
  from set_raw_update_raws[OF e1] a b show ?thesis by simp
qed

text \<open>
  C9. An index out of range is no error. In a document whose rows carry their
  positions, \<^const>\<open>editorRowInsertChar\<close> with a column below 0 or beyond the raw text
  returns, and returns what it returns for the column at the end of the line: the
  character is appended to the raw text. This is for a count \<open>len(row.raw) +
  utf8.RuneLen(c)\<close> that is not negative, which it is for every rune that has an
  encoding, so for every rune the key decoder returns, and for every row that is not
  empty. \<^const>\<open>editorRowDelChar\<close> with a column below 0 or not within the raw text,
  and \<^const>\<open>editorDelRow\<close> with a row index below 0 or not within the document, return
  the editor state unchanged.
\<close>

theorem C9_out_of_range_indices:
  "(p < length (row e) \<and> rows_indexed (row e)
      \<and> 0 \<le> int (length (raw (row e ! p))) + RuneLen c
      \<and> (at < 0 \<or> int (length (raw (row e ! p))) < at)
      \<longrightarrow> (\<exists>e'. editorRowInsertChar p at c e = Some e'
             \<and> editorRowInsertChar p (int (length (raw (row e ! p)))) c e = Some e'
             \<and> map raw (row e') = (map raw (row e))[p := raw (row e ! p) @ AppendRune c]))
   \<and> (p < length (row e) \<and> (at < 0 \<or> int (length (raw (row e ! p))) \<le> at)
      \<longrightarrow> editorRowDelChar p at e = Some e)
   \<and> (at < 0 \<or> int (length (row e)) \<le> at \<longrightarrow> editorDelRow at e = Some e)"
  using editorRowInsertChar_clamped[of p e at c]
  by (auto simp: editorRowDelChar_def editorDelRow_def Let_def)

theorem C9_out_of_range_indices_witness:
  "rows_indexed (row cursor_doc) \<and> RuneLen 120 = 1
   \<and> (\<exists>e'. editorRowInsertChar 0 7 120 cursor_doc = Some e' \<and> map raw (row e') = [''abx'', ''c''])
   \<and> editorRowDelChar 0 2 cursor_doc = Some cursor_doc
   \<and> editorDelRow 2 cursor_doc = Some cursor_doc"
proof -
  have a: "AppendRune 120 = ''x''" "RuneLen 120 = 1" by code_simp+
  have u: "[0..<2] = [0, 1]" by code_simp
  have i: "rows_indexed (row cursor_doc)"
    by (simp add: cursor_doc_def initEditor_def rows_indexed_def u)
  have l: "length (row cursor_doc) = 2" "raw (row cursor_doc ! 0) = ''ab''"
    "map raw (row cursor_doc) = [''ab'', ''c'']"
    by (simp_all add: cursor_doc_def initEditor_def)
  from C9_out_of_range_indices[where p = 0 and e = cursor_doc and at = 7 and c = 120] i l a
  have "\<exists>e'. editorRowInsertChar 0 7 120 cursor_doc = Some e' \<and> map raw (row e') = [''abx'', ''c'']"
    by auto
  moreover from C9_out_of_range_indices[where p = 0 and e = cursor_doc and at = 2 and c = 120] l
  have "editorRowDelChar 0 2 cursor_doc = Some cursor_doc"
    and "editorDelRow 2 cursor_doc = Some cursor_doc" by simp_all
  ultimately show ?thesis using i a(2) by simp
qed

section \<open>The two column maps\<close>

text \<open>
  C3, as the claim states it, fails. For the row that is one tab, the raw columns 0
  and 1 give the render columns 0 and 8; at render column 3 the composition gives 0,
  which is below 3, and not 8.
\<close>

theorem C3_column_maps_counterexample:
  "editorRowCxToRx tab_row (editorRowRxToCx tab_row 3) = Some 0
   \<and> editorRowCxToRx tab_row 1 = Some 8"
  by code_simp

lemma rx_step_gt: "x < rx_step x ch"
proof -
  have "x mod 8 \<le> 7" by simp
  then show ?thesis by (simp add: rx_step_def tabStop_def)
qed

lemma foldl_rx_step_ge: "x \<le> foldl rx_step x xs"
proof (induction xs arbitrary: x)
  case Nil
  show ?case by simp
next
  case (Cons a xs)
  from Cons[of "rx_step x a"] rx_step_gt[of x a] show ?case by simp
qed

lemma range_runes_ascii:
  "byte_val c < 128 \<Longrightarrow>
     range_runes 0 off (c # t) = (off, rune_of_byte c) # range_runes 0 (Suc off) t"
  by (simp add: rune_of_byte_def Let_def)

lemma rxToCx_loop_ascii:
  assumes "ascii t" and "cur \<le> rx"
  shows "(case rxToCx_loop cur rx (range_runes 0 off t) of
            Some k \<Rightarrow> \<exists>j < length t. k = int (off + j)
                        \<and> foldl rx_step cur (map rune_of_byte (take j t)) \<le> rx
                        \<and> rx < foldl rx_step cur (map rune_of_byte (take (Suc j) t))
          | None \<Rightarrow> foldl rx_step cur (map rune_of_byte t) \<le> rx)"
  using assms
proof (induction t arbitrary: cur off)
  case Nil
  then show ?case by simp
next
  case (Cons c t)
  from Cons.prems(1) have c: "byte_val c < 128" and t: "ascii t" by (simp_all add: ascii_def)
  show ?case
  proof (cases "rx < rx_step cur (rune_of_byte c)")
    case True
    with Cons.prems(2) show ?thesis
      unfolding range_runes_ascii[OF c] by simp
  next
    case False
    then have le: "rx_step cur (rune_of_byte c) \<le> rx" by simp
    show ?thesis
    proof (cases "rxToCx_loop (rx_step cur (rune_of_byte c)) rx (range_runes 0 (Suc off) t)")
      case None
      with Cons.IH[OF t le, of "Suc off"] False show ?thesis
        unfolding range_runes_ascii[OF c] by simp
    next
      case (Some k)
      with Cons.IH[OF t le, of "Suc off"] obtain j where
        j: "j < length t" "k = int (Suc off + j)"
           "foldl rx_step (rx_step cur (rune_of_byte c)) (map rune_of_byte (take j t)) \<le> rx"
           "rx < foldl rx_step (rx_step cur (rune_of_byte c)) (map rune_of_byte (take (Suc j) t))"
        by auto
      have "\<exists>j' < length (c # t). k = int (off + j')
              \<and> foldl rx_step cur (map rune_of_byte (take j' (c # t))) \<le> rx
              \<and> rx < foldl rx_step cur (map rune_of_byte (take (Suc j') (c # t)))"
        using j by (intro exI[of _ "Suc j"]) simp
      with Some False show ?thesis unfolding range_runes_ascii[OF c] by simp
    qed
  qed
qed

lemma foldl_rx_step_take_mono:
  assumes "a \<le> b"
  shows "foldl rx_step x (map rune_of_byte (take a s)) \<le> foldl rx_step x (map rune_of_byte (take b s))"
proof -
  from assms obtain d where b: "b = a + d" using le_Suc_ex by blast
  have "take b s = take a s @ take d (drop a s)" unfolding b by (simp add: take_add)
  then show ?thesis by (simp add: foldl_rx_step_ge)
qed

text \<open>
  C3, amended. For a row of single-byte characters and a render column that is not
  negative, \<^const>\<open>editorRowCxToRx\<close> after \<^const>\<open>editorRowRxToCx\<close> gives the largest
  render column, among those the raw column boundaries of the row give, that is at
  most the render column it started from.
\<close>

theorem C3_column_maps:
  assumes "ascii (raw r)" and "0 \<le> rx"
  shows "\<exists>y. editorRowCxToRx r (editorRowRxToCx r rx) = Some y \<and> y \<le> rx
           \<and> (\<forall>k z. editorRowCxToRx r k = Some z \<and> z \<le> rx \<longrightarrow> z \<le> y)"
proof -
  let ?G = "\<lambda>n. foldl rx_step 0 (map rune_of_byte (take n (raw r)))"
  have cx: "editorRowCxToRx r k = Some z \<Longrightarrow> z = ?G (nat k) \<and> nat k \<le> length (raw r)" for k z
    by (auto simp: editorRowCxToRx_def split: if_splits)
  note loop = rxToCx_loop_ascii[OF assms, of 0]
  show ?thesis
  proof (cases "rxToCx_loop 0 rx (range_runes 0 0 (raw r))")
    case None
    then have k: "editorRowRxToCx r rx = int (length (raw r))" by (simp add: editorRowRxToCx_def)
    from loop None have le: "?G (length (raw r)) \<le> rx" by simp
    have H: "z \<le> ?G (length (raw r))" if "editorRowCxToRx r k = Some z" for k z
      using cx[OF that] foldl_rx_step_take_mono[of "nat k" "length (raw r)" 0 "raw r"] by simp
    have y: "editorRowCxToRx r (int (length (raw r))) = Some (?G (length (raw r)))"
      by (simp add: editorRowCxToRx_def)
    show ?thesis unfolding k y
      by (intro exI[of _ "?G (length (raw r))"] conjI allI impI) (use le H in auto)
  next
    case (Some k0)
    with loop obtain j where j: "j < length (raw r)" "k0 = int j" "?G j \<le> rx" "rx < ?G (Suc j)"
      by auto
    from Some j have k: "editorRowRxToCx r rx = int j" by (simp add: editorRowRxToCx_def)
    have H: "z \<le> ?G j" if "editorRowCxToRx r k = Some z" "z \<le> rx" for k z
    proof -
      from cx[OF that(1)] have z: "z = ?G (nat k)" by simp
      have "nat k \<le> j"
      proof (rule ccontr)
        assume "\<not> nat k \<le> j"
        then have "Suc j \<le> nat k" by simp
        from foldl_rx_step_take_mono[OF this, of 0 "raw r"] j(4) z that(2) show False by simp
      qed
      from foldl_rx_step_take_mono[OF this, of 0 "raw r"] z show ?thesis by simp
    qed
    have y: "editorRowCxToRx r (int j) = Some (?G j)"
      using j(1) by (simp add: editorRowCxToRx_def)
    show ?thesis unfolding k y
      by (intro exI[of _ "?G j"] conjI allI impI) (use j(3) H in auto)
  qed
qed

theorem C3_column_maps_witness:
  "ascii (raw a_tab_b_row) \<and> (0::int) \<le> 5
   \<and> editorRowCxToRx a_tab_b_row (editorRowRxToCx a_tab_b_row 5) = Some 1
   \<and> map (editorRowCxToRx a_tab_b_row) [0, 1, 2, 3] = [Some 0, Some 1, Some 8, Some 9]"
proof -
  have a: "ascii (raw a_tab_b_row)" by code_simp
  have e: "editorRowCxToRx a_tab_b_row (editorRowRxToCx a_tab_b_row 5) = Some 1"
    "map (editorRowCxToRx a_tab_b_row) [0, 1, 2, 3] = [Some 0, Some 1, Some 8, Some 9]"
    by code_simp+
  from C3_column_maps[OF a, of 5] a e show ?thesis by simp
qed

section \<open>Saving and reloading\<close>

text \<open>
  C8, as the claim states it, fails. Typing \<open>a\<close>, Ctrl-J, \<open>b\<close> gives a document of one
  row whose raw text holds a newline; what is saved for it reloads as two rows.
\<close>

theorem C8_round_trip_counterexample:
  "(case newline_doc of
      None \<Rightarrow> False
    | Some e \<Rightarrow>
        map raw (row e) = [[CHR ''a'', CHR 0x0A, CHR ''b'']]
        \<and> editorRowsToString e = [CHR ''a'', CHR 0x0A, CHR ''b'', CHR 0x0A]
        \<and> map_option (\<lambda>e'. map raw (row e'))
             (editorOpen (\<lambda>r. False) ''notes.txt'' (Some (editorRowsToString e)) initEditor)
           = Some [''a'', ''b''])"
  by code_simp

lemma AppendRune_newline: "AppendRune 10 = [CHR 0x0A]"
  by code_simp

lemma Lines_acc_line:
  "CHR 0x0A \<notin> set s \<Longrightarrow> Lines_acc cur (s @ CHR 0x0A # rest) = (cur @ s @ [CHR 0x0A]) # Lines_acc [] rest"
  by (induction s arbitrary: cur) auto

lemma Lines_concat:
  "list_all (\<lambda>s. CHR 0x0A \<notin> set s) ss \<Longrightarrow>
     Lines (concat (map (\<lambda>s. s @ [CHR 0x0A]) ss)) = map (\<lambda>s. s @ [CHR 0x0A]) ss"
  unfolding Lines_def
  by (induction ss) (simp_all add: Lines_acc_line)

lemma TrimSuffix_newline: "TrimSuffix (s @ [CHR 0x0A]) [CHR 0x0A] = s"
  by (simp add: TrimSuffix_def HasSuffix_def)

lemma rows_indexed_append:
  "rows_indexed rs \<Longrightarrow> idx r = int (length rs) \<Longrightarrow> rows_indexed (rs @ [r])"
  by (simp add: rows_indexed_def)

lemma editorInsertRow_at_end:
  assumes "rows_indexed (row e)"
  shows "\<exists>e'. editorInsertRow (int (length (row e))) line e = Some e'
           \<and> map raw (row e') = map raw (row e) @ [line] \<and> rows_indexed (row e')"
proof -
  let ?new = "\<lparr>idx = int (length (row e)), raw = line, render = [], highlight = [],
               highlight_spare = [], hasOpenComment = False\<rparr>"
  let ?e1 = "e\<lparr>row := row e @ [?new]\<rparr>"
  have i: "rows_indexed (row ?e1)" using assms by (simp add: rows_indexed_append)
  from editorUpdateRow_total[OF i, of "length (row e)"]
  obtain e2 where e2: "editorUpdateRow (length (row e)) ?e1 = Some e2" by auto
  note f = editorUpdateRow_frame[OF e2]
  have "map raw (row e2) = map raw (row ?e1)"
  proof (rule nth_equalityI)
    show "length (map raw (row e2)) = length (map raw (row ?e1))" using f(2) by simp
    fix k assume "k < length (map raw (row e2))"
    with f(2) have k: "k < length (row ?e1)" by simp
    show "map raw (row e2) ! k = map raw (row ?e1) ! k"
    proof (cases "k = length (row e)")
      case True
      with f(6) f(2) k show ?thesis by (simp add: nth_append)
    next
      case False
      from f(4)[OF k False] k f(2) show ?thesis by (simp add: same_text_def nth_append)
    qed
  qed
  moreover have "editorInsertRow (int (length (row e))) line e = Some (set_dirty e2)"
    using e2 by (simp add: editorInsertRow_def)
  moreover have "rows_indexed (row e2)" by (rule editorUpdateRow_indexed[OF e2 i])
  ultimately show ?thesis by simp
qed

lemma open_loop:
  assumes "rows_indexed (row e1)"
  shows "\<exists>e'. foldl (\<lambda>eo line. Option.bind eo
                  (\<lambda>e'. editorInsertRow (int (length (row e'))) (TrimSuffix line [CHR 0x0A]) e'))
                (Some e1) (map (\<lambda>s. s @ [CHR 0x0A]) ss) = Some e'
           \<and> map raw (row e') = map raw (row e1) @ ss"
  using assms
proof (induction ss arbitrary: e1)
  case Nil
  then show ?case by simp
next
  case (Cons s ss)
  from editorInsertRow_at_end[OF Cons.prems, of s] obtain e2 where
    e2: "editorInsertRow (int (length (row e1))) s e1 = Some e2"
        "map raw (row e2) = map raw (row e1) @ [s]" "rows_indexed (row e2)" by blast
  from Cons.IH[OF e2(3)] e2(1,2) show ?case by (simp add: TrimSuffix_newline)
qed

lemma select_on_empty:
  assumes "row e = []"
  shows "\<exists>sel. editorSelectSyntaxHighlight inplace e = Some (e\<lparr>syntax := sel\<rparr>)"
  using assms
  by (cases "filename e = []")
     (auto simp: editorSelectSyntaxHighlight_def highlightDB_def goSyntax_def)

text \<open>
  C8, amended. The saved content is the concatenation, in row order, of every row's
  raw text followed by one newline. When no row holds a newline byte, opening the
  saved content in an editor with no rows returns, and gives a document with the
  same raw texts in the same order.
\<close>

theorem C8_round_trip:
  assumes "row e0 = []" and "list_all no_newline (row e)"
  shows "editorRowsToString e = concat (map (\<lambda>r. raw r @ [CHR 0x0A]) (row e))
         \<and> (\<exists>e'. editorOpen inplace path (Some (editorRowsToString e)) e0 = Some e'
                \<and> map raw (row e') = map raw (row e))"
proof -
  have s: "editorRowsToString e = concat (map (\<lambda>s. s @ [CHR 0x0A]) (map raw (row e)))"
    by (simp add: editorRowsToString_def AppendRune_newline comp_def)
  have "list_all (\<lambda>s. CHR 0x0A \<notin> set s) (map raw (row e))"
    using assms(2) by (simp add: list_all_iff no_newline_def)
  from Lines_concat[OF this]
  have l: "Lines (editorRowsToString e) = map (\<lambda>s. s @ [CHR 0x0A]) (map raw (row e))"
    unfolding s .
  from select_on_empty[of "e0\<lparr>filename := path\<rparr>" inplace] assms(1) obtain sel where
    sel: "editorSelectSyntaxHighlight inplace (e0\<lparr>filename := path\<rparr>)
            = Some (e0\<lparr>filename := path, syntax := sel\<rparr>)" by auto
  have "rows_indexed (row (e0\<lparr>filename := path, syntax := sel\<rparr>))"
    using assms(1) by (simp add: rows_indexed_def)
  from open_loop[OF this, of "map raw (row e)"] obtain e2 where
    e2: "foldl (\<lambda>eo line. Option.bind eo
                  (\<lambda>e'. editorInsertRow (int (length (row e'))) (TrimSuffix line [CHR 0x0A]) e'))
                (Some (e0\<lparr>filename := path, syntax := sel\<rparr>))
                (map (\<lambda>s. s @ [CHR 0x0A]) (map raw (row e))) = Some e2"
        "map raw (row e2) = map raw (row e)"
    using assms(1) by auto
  have "editorOpen inplace path (Some (editorRowsToString e)) e0 = Some (e2\<lparr>dirty := False\<rparr>)"
    using e2(1) by (simp add: editorOpen_def sel l)
  with e2(2) s show ?thesis by (simp add: comp_def)
qed

theorem C8_round_trip_witness:
  "row initEditor = [] \<and> list_all no_newline (row cursor_doc)
   \<and> editorRowsToString cursor_doc = [CHR ''a'', CHR ''b'', CHR 0x0A, CHR ''c'', CHR 0x0A]
   \<and> (\<exists>e'. editorOpen (\<lambda>r. False) ''x.go'' (Some (editorRowsToString cursor_doc)) initEditor
               = Some e'
          \<and> map raw (row e') = [''ab'', ''c''])"
proof -
  have a: "row initEditor = []" by (simp add: initEditor_def)
  have b: "list_all no_newline (row cursor_doc)" by code_simp
  have c: "map raw (row cursor_doc) = [''ab'', ''c'']"
    by (simp add: cursor_doc_def initEditor_def)
  have d: "editorRowsToString cursor_doc = [CHR ''a'', CHR ''b'', CHR 0x0A, CHR ''c'', CHR 0x0A]"
    by code_simp
  from C8_round_trip[OF a b, of "\<lambda>r. False" "''x.go''"]
  have "\<exists>e'. editorOpen (\<lambda>r. False) ''x.go'' (Some (editorRowsToString cursor_doc)) initEditor
               = Some e'
          \<and> map raw (row e') = [''ab'', ''c'']"
    unfolding c by (rule conjunct2)
  with a b d show ?thesis by blast
qed

section \<open>The open-comment flags after a merge of two rows\<close>

text \<open>
  C2. The file of the lines \<open>//\<close>, \<open>/*\<close>, \<open>x\<close> is opened with the Go profile: the
  invariant of the flags holds. The cursor goes down to the start of the second row
  and backspace merges that row into the first. The first row is now \<open>///*\<close>, a line
  comment, and no block comment is open at its end; the row \<open>x\<close> still carries the
  flag and the block-comment tag it had: the invariant is broken.
\<close>

theorem C2_merge_breaks_comment_invariant:
  "(case comment_doc of
      None \<Rightarrow> False
    | Some e \<Rightarrow>
        map raw (row e) = [''//'', ''/*'', ''x''] \<and> comment_invariant e
        \<and> (case Option.bind (editorMoveCursor arrowDown e) editorDelChar of
              None \<Rightarrow> False
            | Some e' \<Rightarrow>
                map raw (row e') = [''///*'', ''x'']
                \<and> map hasOpenComment (row e') = [False, True]
                \<and> map highlight (row e')
                    = [[highlightComment, highlightComment, highlightComment, highlightComment],
                       [highlightMultiComment]]
                \<and> comment_invariant e' = False))"
  by code_simp

section \<open>The keyword rule\<close>

lemma take_eq_nth:
  "length xs = length ys \<Longrightarrow> (take n xs = take n ys) = (\<forall>j < n. j < length xs \<longrightarrow> xs ! j = ys ! j)"
  by (auto simp: list_eq_iff_nth_eq)




lemma take_Suc_agree:
  "length ys = length xs \<Longrightarrow> take i ys = take i xs \<Longrightarrow> ys ! i = xs ! i \<Longrightarrow>
     take (Suc i) ys = take (Suc i) xs"
  by (auto simp: take_eq_nth less_Suc_eq)














section \<open>Forward search\<close>

lemma HasPrefix_iff: "HasPrefix s p \<longleftrightarrow> (\<exists>v. s = p @ v)"
  unfolding HasPrefix_def
  by (metis append_eq_conv_conj append_take_drop_id)

lemma HasPrefix_length: "HasPrefix s p \<Longrightarrow> length p \<le> length s"
  by (auto simp: HasPrefix_iff)

lemma Index_from_range:
  "0 \<le> k \<Longrightarrow> Index_from k s sub = - 1
     \<or> (k \<le> Index_from k s sub \<and> nat (Index_from k s sub - k) + length sub \<le> length s)"
proof (induction s arbitrary: k)
  case Nil
  then show ?case by simp
next
  case (Cons c s)
  show ?case
  proof (cases "HasPrefix (c # s) sub")
    case True
    with HasPrefix_length[OF True] show ?thesis by simp
  next
    case False
    from Cons.IH[of "k + 1"] Cons.prems False show ?thesis by auto
  qed
qed

lemma Index_range:
  "0 \<le> Index s sub \<Longrightarrow> nat (Index s sub) + length sub \<le> length s"
  using Index_from_range[of 0 s sub] by (auto simp: Index_def)

lemma Index_from_found:
  "0 \<le> k \<Longrightarrow> (Index_from k s sub \<noteq> - 1) = (\<exists>u v. s = u @ sub @ v)"
proof (induction s arbitrary: k)
  case Nil
  then show ?case by auto
next
  case (Cons c s)
  show ?case
  proof (cases "HasPrefix (c # s) sub")
    case True
    then obtain v where "c # s = [] @ sub @ v" by (auto simp: HasPrefix_iff)
    then have "\<exists>u v. c # s = u @ sub @ v" by blast
    with True Cons.prems show ?thesis by simp
  next
    case False
    have "(\<exists>u v. c # s = u @ sub @ v) = (\<exists>u v. s = u @ sub @ v)"
    proof
      assume "\<exists>u v. c # s = u @ sub @ v"
      then obtain u v where uv: "c # s = u @ sub @ v" by blast
      show "\<exists>u v. s = u @ sub @ v"
      proof (cases u)
        case Nil
        with uv have "HasPrefix (c # s) sub" by (auto simp: HasPrefix_iff)
        with False show ?thesis by simp
      next
        case (Cons a u')
        with uv have "s = u' @ sub @ v" by simp
        then show ?thesis by blast
      qed
    next
      assume "\<exists>u v. s = u @ sub @ v"
      then obtain u v where "s = u @ sub @ v" by blast
      then have "c # s = (c # u) @ sub @ v" by simp
      then show "\<exists>u v. c # s = u @ sub @ v" by blast
    qed
    with Cons.IH[of "k + 1"] Cons.prems False show ?thesis by simp
  qed
qed

lemma Contains_iff: "Contains s sub \<longleftrightarrow> (\<exists>u v. s = u @ sub @ v)"
  using Index_from_found[of 0 s sub] Index_from_range[of 0 s sub]
  by (auto simp: Contains_def Index_def)


lemma highlightSearchResult_some:
  assumes "k < length (row e)" and "tags_ok (row e ! k)" and "Contains (render (row e ! k)) query"
  shows "\<exists>e'. highlightSearchResult k query (Index (render (row e ! k)) query) e = Some e'
           \<and> lastMatchLine e' = lastMatchLine e \<and> cy e' = cy e"
proof -
  from assms(3) have i: "0 \<le> Index (render (row e ! k)) query" by (simp add: Contains_def)
  from Index_range[OF i] assms(2)
  have "Index (render (row e ! k)) query + int (length query) \<le> int (length (highlight (row e ! k)))"
    using i by (simp add: tags_ok_def)
  with i show ?thesis by (simp add: highlightSearchResult_def Let_def)
qed

lemma upt_Suc_shift: "[0..<Suc m] = 0 # map Suc [0..<m]"
  by (simp add: upt_conv_Cons map_Suc_upt del: upt_Suc)

lemma find_loop_forward:
  assumes "searchForward e" and "- 1 \<le> cur" and "cur < int (length (row e))"
    and "m \<le> length (row e)"
  shows "find_loop m cur query e =
     (case List.find (\<lambda>k. Contains (render (row e ! k)) query)
             (map (\<lambda>d. nat ((cur + 1 + int d) mod int (length (row e)))) [0..<m]) of
        None \<Rightarrow> Some e
      | Some k \<Rightarrow>
          highlightSearchResult k query (Index (render (row e ! k)) query)
            (e\<lparr>lastMatchLine := int k, cy := int k,
               cx := editorRowRxToCx (row e ! k) (Index (render (row e ! k)) query),
               rowOffset := int (length (row e))\<rparr>))"
  using assms(2-)
proof (induction m arbitrary: cur)
  case 0
  show ?case by simp
next
  case (Suc m)
  let ?n = "int (length (row e))"
  let ?c2 = "(cur + 1) mod ?n"
  from Suc.prems have n: "0 < ?n" by auto
  have c2: "(if cur + 1 = - 1 then ?n - 1 else if cur + 1 = ?n then 0 else cur + 1) = ?c2"
    using Suc.prems by (auto simp: mod_pos_pos_trivial)
  have r: "0 \<le> ?c2" "?c2 < ?n" using n by simp_all
  then have ra: "row_at (row e) ?c2 = Some (row e ! nat ?c2)" by (simp add: row_at_def)
  have sh: "map (\<lambda>d. nat ((cur + 1 + int d) mod ?n)) [0..<Suc m]
      = nat ?c2 # map (\<lambda>d. nat ((?c2 + 1 + int d) mod ?n)) [0..<m]"
  proof -
    have "(cur + 1 + int (Suc d)) mod ?n = (?c2 + 1 + int d) mod ?n" for d
    proof -
      have "(?c2 + (1 + int d)) mod ?n = (cur + 1 + (1 + int d)) mod ?n"
        by (rule mod_add_left_eq)
      then show ?thesis by (simp add: algebra_simps)
    qed
    then show ?thesis unfolding upt_Suc_shift by (simp add: comp_def del: upt_Suc)
  qed
  have sf: "searchForward e = True" using assms(1) by simp
  have step: "find_loop (Suc m) cur query e =
      (case row_at (row e) ?c2 of
         None \<Rightarrow> None
       | Some r \<Rightarrow>
           if 0 \<le> Index (render r) query then
             highlightSearchResult (nat ?c2) query (Index (render r) query)
               (e\<lparr>lastMatchLine := ?c2, cy := ?c2,
                  cx := editorRowRxToCx r (Index (render r) query),
                  rowOffset := int (length (row e))\<rparr>)
           else find_loop m ?c2 query e)"
    by (simp only: find_loop.simps Let_def sf if_True c2)
  have i2: "int (nat ?c2) = ?c2" using r by simp
  show ?case
  proof (cases "Contains (render (row e ! nat ?c2)) query")
    case True
    then have "0 \<le> Index (render (row e ! nat ?c2)) query" by (simp add: Contains_def)
    with True r show ?thesis
      unfolding sh step ra by (simp add: i2 del: upt_Suc)
  next
    case False
    then have "\<not> 0 \<le> Index (render (row e ! nat ?c2)) query" by (simp add: Contains_def)
    moreover have "find_loop m ?c2 query e =
     (case List.find (\<lambda>k. Contains (render (row e ! k)) query)
             (map (\<lambda>d. nat ((?c2 + 1 + int d) mod ?n)) [0..<m]) of
        None \<Rightarrow> Some e
      | Some k \<Rightarrow>
          highlightSearchResult k query (Index (render (row e ! k)) query)
            (e\<lparr>lastMatchLine := int k, cy := int k,
               cx := editorRowRxToCx (row e ! k) (Index (render (row e ! k)) query),
               rowOffset := int (length (row e))\<rparr>))"
      using Suc.IH[of ?c2] r Suc.prems by simp
    ultimately show ?thesis
      using False r unfolding sh step ra by (simp del: upt_Suc)
  qed
qed


lemma length_copy_into [simp]: "length (copy_into dst src) = length dst"
  by (simp add: copy_into_def)

lemma clearSearchHighlight_props:
  assumes "list_all tags_ok (row e)"
    and "beforeSearchHighlights e = []
         \<or> (0 \<le> searchHighlightLine e \<and> searchHighlightLine e < int (length (row e)))"
  shows "\<exists>e1. clearSearchHighlight e = Some e1 \<and> map render (row e1) = map render (row e)
           \<and> list_all tags_ok (row e1) \<and> lastMatchLine e1 = lastMatchLine e \<and> cy e1 = cy e"
proof (cases "beforeSearchHighlights e = []")
  case True
  with assms(1) show ?thesis by (simp add: clearSearchHighlight_def)
next
  case False
  with assms(2) have k: "0 \<le> searchHighlightLine e" "searchHighlightLine e < int (length (row e))"
    by simp_all
  let ?k = "nat (searchHighlightLine e)"
  let ?r = "(row e ! ?k)\<lparr>highlight := copy_into (highlight (row e ! ?k)) (beforeSearchHighlights e)\<rparr>"
  let ?e1 = "e\<lparr>row := (row e)[?k := ?r], beforeSearchHighlights := []\<rparr>"
  from k have kl: "?k < length (row e)" by simp
  have c: "clearSearchHighlight e = Some ?e1"
    using False k by (simp add: clearSearchHighlight_def row_ptr_def)
  have "map render (row ?e1) = map render (row e)"
    using kl by (simp add: map_update list_update_same_conv)
  moreover have "list_all tags_ok (row ?e1)"
  proof -
    from assms(1) kl have "tags_ok (row e ! ?k)" by (simp add: list_all_length)
    then have "tags_ok ?r" by (simp add: tags_ok_def)
    have "tags_ok ((row e)[?k := ?r] ! j)" if "j < length (row e)" for j
      using that assms(1) \<open>tags_ok ?r\<close>
      by (cases "j = ?k") (simp_all add: list_all_length)
    then show ?thesis by (simp add: list_all_length)
  qed
  ultimately show ?thesis using c by simp
qed

text \<open>
  C6. A query event whose key is neither Enter nor Escape nor a backward navigation
  key, on a document whose rows have as many tags as rendered characters, with an
  anchor that is -1 or a row of the document: \<^const>\<open>editorFindCallback\<close> returns; the
  rows are tried one at a time from the row after the anchor (row 0 when there is
  none), from the last row on to row 0, for one full pass at most; the first of them
  whose rendered text contains the query becomes the anchor and the cursor row; when
  there is none the anchor is what the key left of it. The witness is the document
  \<open>abc\<close>, \<open>def\<close>, \<open>abc\<close> with the query \<open>abc\<close>: typing the last letter of the query
  matches row 0, arrow-down then matches row 2, arrow-down again matches row 0.
\<close>

theorem C6_forward_search:
  assumes tags: "list_all tags_ok (row e)"
    and ov: "beforeSearchHighlights e = []
             \<or> (0 \<le> searchHighlightLine e \<and> searchHighlightLine e < int (length (row e)))"
    and anchor: "- 1 \<le> lastMatchLine e" "lastMatchLine e < int (length (row e))"
    and key: "key \<noteq> 13" "key \<noteq> 27" "key \<noteq> arrowLeft" "key \<noteq> arrowUp"
  shows "\<exists>e'. editorFindCallback query key e = Some e'
           \<and> (case first_match query (map render (row e))
                       (search_order (forward_anchor key e) (length (row e))) of
                 None \<Rightarrow> lastMatchLine e' = forward_anchor key e
               | Some k \<Rightarrow> lastMatchLine e' = int k \<and> cy e' = int k)"
proof -
  from clearSearchHighlight_props[OF tags ov] obtain e1 where
    e1: "clearSearchHighlight e = Some e1" "map render (row e1) = map render (row e)"
        "list_all tags_ok (row e1)" "lastMatchLine e1 = lastMatchLine e"
    by blast
  from e1(2) have n: "length (row e1) = length (row e)" by (metis length_map)
  let ?a = "forward_anchor key e"
  let ?e2 = "e1\<lparr>lastMatchLine := ?a, searchForward := True\<rparr>"
  have cb: "editorFindCallback query key e = find_loop (length (row e)) ?a query ?e2"
  proof (cases "key = arrowRight \<or> key = arrowDown")
    case True
    then have "e1\<lparr>searchForward := True\<rparr> = ?e2" using e1(4) by (simp add: forward_anchor_def)
    with True key e1(1) n show ?thesis
      by (simp add: editorFindCallback_def Let_def forward_anchor_def)
  next
    case False
    with key e1(1) n show ?thesis
      by (simp add: editorFindCallback_def Let_def forward_anchor_def)
  qed
  have a: "- 1 \<le> ?a" "?a < int (length (row ?e2))"
    using anchor n by (auto simp: forward_anchor_def)
  let ?order = "search_order ?a (length (row e))"
  have lt: "k < length (row e)" if "k \<in> set ?order" for k
  proof -
    from that obtain d where "d < length (row e)"
      "k = nat ((?a + 1 + int d) mod int (length (row e)))"
      by (auto simp: search_order_def)
    from this(1) have "0 < int (length (row e))" by auto
    then have "0 \<le> (?a + 1 + int d) mod int (length (row e))"
      "(?a + 1 + int d) mod int (length (row e)) < int (length (row e))"
      by simp_all
    with \<open>k = nat ((?a + 1 + int d) mod int (length (row e)))\<close> show ?thesis by linarith
  qed
  have fm: "first_match query (map render (row e)) ?order
      = List.find (\<lambda>k. Contains (render (row ?e2 ! k)) query) ?order"
    unfolding first_match_def
  proof (rule find_cong[OF refl])
    fix k assume "k \<in> set ?order"
    then have k: "k < length (row e)" by (rule lt)
    then have "map render (row e) ! k = map render (row e1) ! k" using e1(2) by simp
    with k n show "Contains (map render (row e) ! k) query = Contains (render (row ?e2 ! k)) query"
      by simp
  qed
  have ord: "map (\<lambda>d. nat ((?a + 1 + int d) mod int (length (row ?e2)))) [0..<length (row e)]
      = ?order"
    using n by (simp add: search_order_def)
  have l0: "find_loop (length (row e)) ?a query ?e2 =
     (case List.find (\<lambda>k. Contains (render (row ?e2 ! k)) query)
             (map (\<lambda>d. nat ((?a + 1 + int d) mod int (length (row ?e2)))) [0..<length (row e)]) of
        None \<Rightarrow> Some ?e2
      | Some k \<Rightarrow>
          highlightSearchResult k query (Index (render (row ?e2 ! k)) query)
            (?e2\<lparr>lastMatchLine := int k, cy := int k,
               cx := editorRowRxToCx (row ?e2 ! k) (Index (render (row ?e2 ! k)) query),
               rowOffset := int (length (row ?e2))\<rparr>))"
    by (rule find_loop_forward) (use a n in simp_all)
  have loop': "find_loop (length (row e)) ?a query ?e2 =
     (case first_match query (map render (row e)) ?order of
        None \<Rightarrow> Some ?e2
      | Some k \<Rightarrow>
          highlightSearchResult k query (Index (render (row ?e2 ! k)) query)
            (?e2\<lparr>lastMatchLine := int k, cy := int k,
               cx := editorRowRxToCx (row ?e2 ! k) (Index (render (row ?e2 ! k)) query),
               rowOffset := int (length (row ?e2))\<rparr>))"
    unfolding fm using l0[unfolded ord] .
  show ?thesis
  proof (cases "first_match query (map render (row e)) ?order")
    case None
    with cb loop' show ?thesis by simp
  next
    case (Some k)
    from Some have "List.find (\<lambda>k. Contains (render (row ?e2 ! k)) query) ?order = Some k"
      unfolding fm .
    then have kk: "k \<in> set ?order" "Contains (render (row ?e2 ! k)) query"
      by (auto simp: find_Some_iff)
    from lt[OF kk(1)] n have kl: "k < length (row e1)" by simp
    let ?e3 = "?e2\<lparr>lastMatchLine := int k, cy := int k,
               cx := editorRowRxToCx (row ?e2 ! k) (Index (render (row ?e2 ! k)) query),
               rowOffset := int (length (row ?e2))\<rparr>"
    have "\<exists>e'. highlightSearchResult k query (Index (render (row ?e3 ! k)) query) ?e3 = Some e'
           \<and> lastMatchLine e' = lastMatchLine ?e3 \<and> cy e' = cy ?e3"
      using kl e1(3) kk(2) by (intro highlightSearchResult_some) (simp_all add: list_all_length)
    with cb loop' Some show ?thesis by simp
  qed
qed


theorem C6_forward_search_witness:
  "list_all tags_ok (row search_doc) \<and> beforeSearchHighlights search_doc = []
   \<and> - 1 \<le> lastMatchLine search_doc \<and> lastMatchLine search_doc < int (length (row search_doc))
   \<and> first_match ''abc'' (map render (row search_doc))
         (search_order (forward_anchor 99 search_doc) (length (row search_doc))) = Some 0
   \<and> (\<exists>e'. editorFindCallback ''abc'' 99 search_doc = Some e' \<and> lastMatchLine e' = 0 \<and> cy e' = 0)
   \<and> (case editorFindCallback ''abc'' 99 search_doc of
         None \<Rightarrow> False
       | Some s1 \<Rightarrow>
           lastMatchLine s1 = 0
           \<and> (case editorFindCallback ''abc'' arrowDown s1 of
                 None \<Rightarrow> False
               | Some s2 \<Rightarrow>
                   lastMatchLine s2 = 2
                   \<and> (case editorFindCallback ''abc'' arrowDown s2 of
                         None \<Rightarrow> False
                       | Some s3 \<Rightarrow> lastMatchLine s3 = 0 \<and> cy s3 = 0)))"
proof -
  have h: "list_all tags_ok (row search_doc)" "beforeSearchHighlights search_doc = []"
    "- 1 \<le> lastMatchLine search_doc" "lastMatchLine search_doc < int (length (row search_doc))"
    by code_simp+
  have k: "(99::int) \<noteq> 13" "(99::int) \<noteq> 27" "99 \<noteq> arrowLeft" "99 \<noteq> arrowUp"
    by (simp_all add: arrowLeft_def arrowUp_def)
  have f: "first_match ''abc'' (map render (row search_doc))
         (search_order (forward_anchor 99 search_doc) (length (row search_doc))) = Some 0"
    by code_simp
  have c: "(case editorFindCallback ''abc'' 99 search_doc of
         None \<Rightarrow> False
       | Some s1 \<Rightarrow>
           lastMatchLine s1 = 0
           \<and> (case editorFindCallback ''abc'' arrowDown s1 of
                 None \<Rightarrow> False
               | Some s2 \<Rightarrow>
                   lastMatchLine s2 = 2
                   \<and> (case editorFindCallback ''abc'' arrowDown s2 of
                         None \<Rightarrow> False
                       | Some s3 \<Rightarrow> lastMatchLine s3 = 0 \<and> cy s3 = 0)))"
    by code_simp
  from C6_forward_search[OF h(1) disjI1[OF h(2)] h(3,4) k, of "''abc''"]
  have "\<exists>e'. editorFindCallback ''abc'' 99 search_doc = Some e' \<and> lastMatchLine e' = 0 \<and> cy e' = 0"
    unfolding f by simp
  with h f c show ?thesis by blast
qed

section \<open>Rows without a syntax profile\<close>


lemma keeps_profile_refl: "keeps_profile e e"
  by (simp add: keeps_profile_def)

lemma keeps_profile_trans: "keeps_profile e e1 \<Longrightarrow> keeps_profile e1 e2 \<Longrightarrow> keeps_profile e e2"
  by (simp add: keeps_profile_def)

lemma keeps_profile_inv: "profile_inv e \<Longrightarrow> keeps_profile e e' \<Longrightarrow> profile_inv e'"
  by (simp add: keeps_profile_def profile_inv_def)

lemma keeps_profile_dirty: "keeps_profile e e1 \<Longrightarrow> keeps_profile e (set_dirty e1)"
  by (simp add: keeps_profile_def set_dirty_def)

lemma keeps_profile_cursor:
  "keeps_profile e e1 \<Longrightarrow> keeps_profile e (e1\<lparr>cx := x\<rparr>)"
  "keeps_profile e e1 \<Longrightarrow> keeps_profile e (e1\<lparr>cy := y\<rparr>)"
  "keeps_profile e e1 \<Longrightarrow> keeps_profile e (e1\<lparr>cy := y, cx := x\<rparr>)"
  "keeps_profile e e1 \<Longrightarrow> keeps_profile e (e1\<lparr>dirty := d\<rparr>)"
  "keeps_profile (e\<lparr>cx := x\<rparr>) e1 \<Longrightarrow> keeps_profile e e1"
  by (simp_all add: keeps_profile_def)

lemma row_plain_idx [simp]: "row_plain (r\<lparr>idx := k\<rparr>) = row_plain r"
  by (simp add: row_plain_def tags_normal_def)

lemma resize_tags_normal: "tags_normal r \<Longrightarrow> tags_normal (resize_highlight n r)"
  by (auto simp: tags_normal_def resize_highlight_def list_all_iff
           dest: in_set_takeD in_set_dropD)

lemma rows_indexed_insert:
  assumes "rows_indexed rs" and "n \<le> length rs" and "idx r = int n"
  shows "rows_indexed (take n rs @ [r] @ map (\<lambda>r. r\<lparr>idx := idx r + 1\<rparr>) (drop n rs))"
  unfolding rows_indexed_nth
proof (intro allI impI)
  let ?rows = "take n rs @ [r] @ map (\<lambda>r. r\<lparr>idx := idx r + 1\<rparr>) (drop n rs)"
  fix k assume "k < length ?rows"
  with assms(2) have k: "k \<le> length rs" by simp
  from assms(2) have l: "length (take n rs) = n" by simp
  consider "k < n" | "k = n" | "n < k" by linarith
  then show "idx (?rows ! k) = int k"
  proof cases
    case 1
    with assms(1,2) l show ?thesis by (simp add: nth_append rows_indexed_nth)
  next
    case 2
    with assms(3) l show ?thesis by (simp add: nth_append)
  next
    case 3
    then obtain j where j: "k = Suc (n + j)" using less_imp_Suc_add by blast
    with k have "n + j < length rs" by simp
    with assms(1) have "idx (rs ! (n + j)) = int (n + j)" by (simp add: rows_indexed_nth)
    with j k l show ?thesis by (simp add: nth_append)
  qed
qed

lemma rows_indexed_delete:
  assumes "rows_indexed rs" and "n < length rs"
  shows "rows_indexed (take n rs @ map (\<lambda>r. r\<lparr>idx := idx r - 1\<rparr>) (drop (n + 1) rs))"
  unfolding rows_indexed_nth
proof (intro allI impI)
  let ?rows = "take n rs @ map (\<lambda>r. r\<lparr>idx := idx r - 1\<rparr>) (drop (n + 1) rs)"
  fix k assume "k < length ?rows"
  with assms(2) have k: "Suc k < length rs" by simp
  from assms(2) have l: "length (take n rs) = n" by simp
  show "idx (?rows ! k) = int k"
  proof (cases "k < n")
    case True
    with assms l k show ?thesis by (simp add: nth_append rows_indexed_nth)
  next
    case False
    then obtain j where j: "k = n + j" using le_Suc_ex by (metis not_less)
    with k assms(1) have "idx (rs ! Suc (n + j)) = int (Suc (n + j))"
      by (simp add: rows_indexed_nth)
    with j k l show ?thesis by (simp add: nth_append)
  qed
qed

lemma editorUpdateRow_fields:
  assumes "editorUpdateRow p e = Some e'"
  shows "syntax e' = syntax e" and "filename e' = filename e"
    and "beforeSearchHighlights e' = beforeSearchHighlights e"
proof -
  from editorUpdateRow_frame(1)[OF assms] have "e' = e\<lparr>row := row e'\<rparr>" .
  then have "syntax e' = syntax (e\<lparr>row := row e'\<rparr>)" "filename e' = filename (e\<lparr>row := row e'\<rparr>)"
    "beforeSearchHighlights e' = beforeSearchHighlights (e\<lparr>row := row e'\<rparr>)"
    by (rule arg_cong)+
  then show "syntax e' = syntax e" and "filename e' = filename e"
    and "beforeSearchHighlights e' = beforeSearchHighlights e" by simp_all
qed

lemma editorUpdateRow_no_profile:
  assumes "syntax e = None" and "p < length (row e)"
  shows "editorUpdateRow p e
         = Some (e\<lparr>row := (row e)[p := resize_highlight (length (render_of (raw (row e ! p))))
                                        ((row e ! p)\<lparr>render := render_of (raw (row e ! p))\<rparr>)]\<rparr>)"
  using assms
  by (simp add: editorUpdateRow_def) (subst editorUpdateSyntax.simps, simp add: Let_def)

lemma editorUpdateRow_plain:
  assumes "syntax e = None" and "editorUpdateRow p e = Some e'"
    and "tags_normal (row e ! p)"
    and "list_all row_plain (take p (row e))"
    and "list_all row_plain (drop (Suc p) (row e))"
  shows "list_all row_plain (row e')"
proof -
  from assms(2) have p: "p < length (row e)" by (simp add: editorUpdateRow_def split: if_splits)
  let ?n = "length (render_of (raw (row e ! p)))"
  let ?r = "(row e ! p)\<lparr>render := render_of (raw (row e ! p))\<rparr>"
  from editorUpdateRow_no_profile[OF assms(1) p] assms(2)
  have r: "row e' = (row e)[p := resize_highlight ?n ?r]" by auto
  from assms(3) have "tags_normal ?r" by (simp add: tags_normal_def)
  from resize_tags_normal[OF this, of ?n] have "row_plain (resize_highlight ?n ?r)"
    by (simp add: row_plain_def)
  with assms(4,5) p show ?thesis
    unfolding r by (simp add: upd_conv_take_nth_drop)
qed

lemma editorUpdateRow_plain_state:
  assumes "syntax e = None" and "list_all row_plain (row e)" and "p < length (row e)"
  shows "editorUpdateRow p e = Some e"
proof -
  from assms(2,3) have pl: "row_plain (row e ! p)" by (simp add: list_all_length)
  let ?n = "length (render_of (raw (row e ! p)))"
  let ?r = "(row e ! p)\<lparr>render := render_of (raw (row e ! p))\<rparr>"
  from pl have "resize_highlight ?n ?r = row e ! p"
    by (simp add: row_plain_def resize_highlight_def)
  with editorUpdateRow_no_profile[OF assms(1,3)] show ?thesis by simp
qed

lemma set_raw_update_keeps:
  assumes "editorUpdateRow p (set_raw p s e) = Some e'"
  shows "keeps_profile e e'"
proof -
  from editorUpdateRow_frame(3)[OF assms] have p: "p < length (row e)" by simp
  have t: "tags_normal (row (set_raw p s e) ! p)" if "list_all row_plain (row e)"
    using that p by (simp add: set_raw_def list_all_length row_plain_def tags_normal_def)
  have "list_all row_plain (row e')" if "syntax e = None" "list_all row_plain (row e)"
    using editorUpdateRow_plain[OF _ assms t[OF that(2)]] list_all_take_drop[OF that(2)] that(1)
    by (simp add: set_raw_def)
  moreover have "rows_indexed (row e')" if "rows_indexed (row e)"
    using editorUpdateRow_indexed[OF assms set_raw_indexed[OF that]] .
  ultimately show ?thesis using editorUpdateRow_fields[OF assms]
    by (simp add: keeps_profile_def set_raw_def)
qed

lemma editorInsertRow_keeps:
  assumes "editorInsertRow at line e = Some e'"
  shows "keeps_profile e e'"
proof -
  let ?new = "\<lparr>idx = at, raw = line, render = [], highlight = [],
                highlight_spare = [], hasOpenComment = False\<rparr>"
  let ?rows = "take (nat at) (row e) @ [?new]
                 @ map (\<lambda>r. r\<lparr>idx := idx r + 1\<rparr>) (drop (nat at) (row e))"
  from assms have at: "0 \<le> at" "at \<le> int (length (row e))"
    by (simp_all add: editorInsertRow_def split: if_splits)
  with assms obtain e1 where e1: "editorUpdateRow (nat at) (e\<lparr>row := ?rows\<rparr>) = Some e1"
    and e': "e' = set_dirty e1"
    by (auto simp: editorInsertRow_def)
  from at have l: "length (take (nat at) (row e)) = nat at" by simp
  have t: "take (nat at) ?rows = take (nat at) (row e)" using l by simp
  have d: "drop (Suc (nat at)) ?rows = map (\<lambda>r. r\<lparr>idx := idx r + 1\<rparr>) (drop (nat at) (row e))"
    using l by simp
  have n: "?rows ! nat at = ?new" using l by (simp add: nth_append)
  have "list_all row_plain (row e1)" if "syntax e = None" "list_all row_plain (row e)"
  proof -
    from list_all_take_drop[OF that(2), of "nat at"]
    have "list_all row_plain (take (nat at) ?rows)"
      and "list_all row_plain (drop (Suc (nat at)) ?rows)"
      unfolding t d by (simp_all add: list_all_iff)
    moreover have "tags_normal (?rows ! nat at)" unfolding n by (simp add: tags_normal_def)
    ultimately show ?thesis using editorUpdateRow_plain[OF _ e1] that(1) by simp
  qed
  moreover have "rows_indexed (row e1)" if "rows_indexed (row e)"
  proof -
    from at have "nat at \<le> length (row e)" "idx ?new = int (nat at)" by simp_all
    from rows_indexed_insert[OF that this] editorUpdateRow_indexed[OF e1] show ?thesis by simp
  qed
  ultimately show ?thesis using editorUpdateRow_fields[OF e1] e'
    by (simp add: keeps_profile_def set_dirty_def)
qed

lemma editorDelRow_keeps:
  assumes "editorDelRow at e = Some e'"
  shows "keeps_profile e e'"
proof (cases "at < 0 \<or> int (length (row e)) \<le> at")
  case True
  with assms show ?thesis by (simp add: editorDelRow_def keeps_profile_refl)
next
  case False
  with assms have e': "e' = e\<lparr>row := take (nat at) (row e)
      @ map (\<lambda>r. r\<lparr>idx := idx r - 1\<rparr>) (drop (nat at + 1) (row e)), dirty := True\<rparr>"
    by (auto simp: editorDelRow_def)
  have "list_all row_plain (row e')" if "list_all row_plain (row e)"
    using list_all_take_drop[OF that, of "nat at"] list_all_take_drop[OF that, of "nat at + 1"]
    unfolding e' by (auto simp: list_all_iff)
  moreover have "rows_indexed (row e')" if "rows_indexed (row e)"
  proof -
    from False have "nat at < length (row e)" by auto
    from rows_indexed_delete[OF that this] show ?thesis unfolding e' by simp
  qed
  ultimately show ?thesis unfolding keeps_profile_def using e' by simp
qed

lemma editorRowInsertChar_keeps:
  assumes "editorRowInsertChar p at c e = Some e'"
  shows "keeps_profile e e'"
  using assms set_raw_update_keeps keeps_profile_dirty
  by (auto simp: editorRowInsertChar_def Let_def split: if_splits)

lemma editorRowAppendString_keeps:
  assumes "editorRowAppendString p s e = Some e'"
  shows "keeps_profile e e'"
  using assms set_raw_update_keeps keeps_profile_dirty
  by (auto simp: editorRowAppendString_def split: if_splits)

lemma editorRowDelChar_keeps:
  assumes "editorRowDelChar p at e = Some e'"
  shows "keeps_profile e e'"
  using assms set_raw_update_keeps keeps_profile_dirty keeps_profile_refl
  by (auto simp: editorRowDelChar_def Let_def split: if_splits)

lemma editorInsertChar_keeps:
  assumes "editorInsertChar c e = Some e'"
  shows "keeps_profile e e'"
proof -
  from assms obtain e1 p e2 where
    e1: "(if cy e = int (length (row e)) then editorInsertRow (int (length (row e))) [] e
          else Some e) = Some e1"
    and e2: "editorRowInsertChar p (cx e1) c e1 = Some e2" and e': "e' = e2\<lparr>cx := cx e2 + 1\<rparr>"
    by (auto simp: editorInsertChar_def split: Option.bind_splits)
  from e1 editorInsertRow_keeps keeps_profile_refl have "keeps_profile e e1"
    by (auto split: if_splits)
  from keeps_profile_trans[OF this editorRowInsertChar_keeps[OF e2]] e' show ?thesis
    by (simp add: keeps_profile_cursor)
qed

lemma editorDelChar_keeps:
  assumes "editorDelChar e = Some e'"
  shows "keeps_profile e e'"
proof (cases "cy e = int (length (row e)) \<or> (cx e = 0 \<and> cy e = 0)")
  case True
  with assms show ?thesis by (simp add: editorDelChar_def keeps_profile_refl)
next
  case False
  with assms obtain p where p: "row_ptr e (cy e) = Some p"
    by (auto simp: editorDelChar_def split: Option.bind_splits)
  show ?thesis
  proof (cases "0 < cx e")
    case True
    with assms False p obtain e1 where "editorRowDelChar p (cx e - 1) e = Some e1"
      and "e' = e1\<lparr>cx := cx e1 - 1\<rparr>"
      by (auto simp: editorDelChar_def)
    with editorRowDelChar_keeps show ?thesis by (simp add: keeps_profile_cursor)
  next
    case c0: False
    with assms False p obtain q e2 e3 where
      e2: "editorRowAppendString q (raw (row e ! p)) (e\<lparr>cx := int (length (raw (row e ! q)))\<rparr>) = Some e2"
      and e3: "editorDelRow (cy e2) e2 = Some e3" and e': "e' = e3\<lparr>cy := cy e3 - 1\<rparr>"
      by (auto simp: editorDelChar_def split: Option.bind_splits)
    from editorRowAppendString_keeps[OF e2]
    have "keeps_profile e e2" by (rule keeps_profile_cursor(5))
    from keeps_profile_trans[OF this editorDelRow_keeps[OF e3]] e' show ?thesis
      by (simp add: keeps_profile_cursor)
  qed
qed

lemma editorInsertNewline_keeps:
  assumes "editorInsertNewline e = Some e'"
  shows "keeps_profile e e'"
proof (cases "cx e = 0")
  case True
  with assms obtain e1 where "editorInsertRow (cy e) [] e = Some e1"
    and "e' = e1\<lparr>cy := cy e1 + 1, cx := 0\<rparr>"
    by (auto simp: editorInsertNewline_def)
  with editorInsertRow_keeps show ?thesis by (simp add: keeps_profile_cursor)
next
  case False
  with assms obtain p rest e1 p1 front e2 where
    e1: "editorInsertRow (cy e + 1) rest e = Some e1"
    and e2: "editorUpdateRow p1 (set_raw p1 front e1) = Some e2"
    and e': "e' = e2\<lparr>cy := cy e2 + 1, cx := 0\<rparr>"
    by (auto simp: editorInsertNewline_def split: Option.bind_splits)
  from keeps_profile_trans[OF editorInsertRow_keeps[OF e1] set_raw_update_keeps[OF e2]] e'
  show ?thesis by (simp add: keeps_profile_cursor)
qed

lemma mutate_keeps:
  assumes "mutate m e = Some e'"
  shows "keeps_profile e e'"
  using assms
  by (cases m)
     (auto split: Option.bind_splits
           intro: editorInsertRow_keeps editorDelRow_keeps
                  editorRowInsertChar_keeps editorRowAppendString_keeps
                  editorRowDelChar_keeps editorInsertChar_keeps
                  editorDelChar_keeps editorInsertNewline_keeps)


text \<open>\<^const>\<open>editorSave\<close> and \<^const>\<open>startup\<close>.\<close>

lemma updateSyntax_of_copy_fields:
  assumes "updateSyntax_of_copy inplace k e = Some e'"
  shows "syntax e' = syntax e \<and> filename e' = filename e \<and> (syntax e = None \<longrightarrow> e' = e)"
proof (cases "syntax e")
  case None
  with assms show ?thesis by (simp add: updateSyntax_of_copy_def Let_def)
next
  case (Some syn)
  let ?old = "row e ! k"
  let ?r = "resize_highlight (length (render ?old)) ?old"
  from assms Some obtain c where c: "prevOpenComment e ?r = Some c"
    by (auto simp: updateSyntax_of_copy_def Let_def split: Option.bind_splits)
  let ?r' = "highlight_row syn c ?r"
  let ?arr = "highlight ?r' @ drop (length (highlight ?r')) (highlight ?old @ highlight_spare ?old)"
  let ?upd = "if inplace ?old
             then e\<lparr>row := (row e)[k := ?old\<lparr>highlight := take (length (highlight ?old)) ?arr,
                                             highlight_spare := drop (length (highlight ?old)) ?arr\<rparr>]\<rparr>
             else e"
  have f1: "syntax ?upd = syntax e" "filename ?upd = filename e" by simp_all
  have "(if hasOpenComment ?r' \<noteq> hasOpenComment ?r \<and> idx ?r + 1 < int (length (row e))
         then Option.bind (row_ptr ?upd (idx ?r + 1)) (\<lambda>q. editorUpdateSyntax q ?upd)
         else Some ?upd) = Some e'"
    using assms unfolding updateSyntax_of_copy_def Let_def Some c by simp
  then have "?upd = e' \<or> (\<exists>q. editorUpdateSyntax q ?upd = Some e')"
    by (cases "hasOpenComment ?r' \<noteq> hasOpenComment ?r \<and> idx ?r + 1 < int (length (row e))")
       (auto simp del: resize_fields split: Option.bind_splits)
  then have "syntax e' = syntax ?upd \<and> filename e' = filename ?upd"
  proof
    assume "?upd = e'"
    then show ?thesis by simp
  next
    assume "\<exists>q. editorUpdateSyntax q ?upd = Some e'"
    then obtain q where "editorUpdateSyntax q ?upd = Some e'" ..
    from editorUpdateSyntax_frame[OF this] have "e' = ?upd\<lparr>row := row e'\<rparr>"
      by (simp add: syntax_frame_def)
    then have "syntax e' = syntax (?upd\<lparr>row := row e'\<rparr>)"
      "filename e' = filename (?upd\<lparr>row := row e'\<rparr>)"
      by (rule arg_cong)+
    then show ?thesis by simp
  qed
  with f1 Some show ?thesis by simp
qed

lemma foldl_bind_None: "foldl (\<lambda>eo k. Option.bind eo (g k)) None ks = None"
  by (induction ks) simp_all

lemma copy_loop_fields:
  assumes "foldl (\<lambda>eo k. Option.bind eo (updateSyntax_of_copy inplace k)) (Some e) ks = Some e'"
  shows "syntax e' = syntax e \<and> filename e' = filename e \<and> (syntax e = None \<longrightarrow> e' = e)"
  using assms
proof (induction ks arbitrary: e)
  case Nil
  then show ?case by simp
next
  case (Cons k ks)
  show ?case
  proof (cases "updateSyntax_of_copy inplace k e")
    case None
    with Cons.prems show ?thesis by (simp add: foldl_bind_None)
  next
    case (Some e1)
    with Cons.prems Cons.IH[of e1] updateSyntax_of_copy_fields[OF Some] show ?thesis by auto
  qed
qed

lemma editorSelectSyntaxHighlight_fields:
  assumes "editorSelectSyntaxHighlight inplace e = Some e'"
  shows "filename e' = filename e \<and> (filename e = [] \<longrightarrow> syntax e' = None)
         \<and> (syntax e' = None \<longrightarrow>
               row e' = row e \<and> beforeSearchHighlights e' = beforeSearchHighlights e)"
proof (cases "filename e = []")
  case True
  with assms show ?thesis by (auto simp: editorSelectSyntaxHighlight_def)
next
  case False
  with assms obtain sel where
    l: "foldl (\<lambda>eo k. Option.bind eo (updateSyntax_of_copy inplace k))
          (Some (e\<lparr>syntax := sel\<rparr>)) [0..<length (row e)] = Some e'"
    by (auto simp: editorSelectSyntaxHighlight_def split: Option.bind_splits)
  note c = copy_loop_fields[OF l]
  have "row e' = row e \<and> beforeSearchHighlights e' = beforeSearchHighlights e"
    if "syntax e' = None"
  proof -
    from c that have "e' = e\<lparr>syntax := sel\<rparr>" by simp
    then have "row e' = row (e\<lparr>syntax := sel\<rparr>)"
      "beforeSearchHighlights e' = beforeSearchHighlights (e\<lparr>syntax := sel\<rparr>)"
      by (rule arg_cong)+
    then show ?thesis by simp
  qed
  with c False show ?thesis by simp
qed

lemma editorSave_inv:
  assumes "profile_inv e" and "editorSave inplace answer written e = Some e'"
  shows "profile_inv e' \<and> (syntax e \<noteq> None \<longrightarrow> syntax e' = syntax e)"
proof (cases "filename e = []")
  case False
  with assms show ?thesis
    by (cases written) (auto simp: editorSave_def save_file_def profile_inv_def)
next
  case True
  with assms(1) have n: "syntax e = None" "list_all row_plain (row e)" "rows_indexed (row e)"
    "beforeSearchHighlights e = []"
    by (simp_all add: profile_inv_def)
  show ?thesis
  proof (cases "answer = []")
    case a: True
    with assms True show ?thesis by (auto simp: editorSave_def profile_inv_def)
  next
    case a: False
    with assms(2) True obtain e1 where
      e1: "editorSelectSyntaxHighlight inplace (e\<lparr>filename := answer\<rparr>) = Some e1"
      and e': "e' = save_file written e1"
      by (auto simp: editorSave_def)
    from editorSelectSyntaxHighlight_fields[OF e1] a n
    have "profile_inv e1" by (auto simp: profile_inv_def)
    with e' n show ?thesis by (cases written) (simp_all add: save_file_def profile_inv_def)
  qed
qed

lemma open_loop_keeps:
  assumes "foldl (\<lambda>eo line. Option.bind eo
                    (\<lambda>e'. editorInsertRow (int (length (row e'))) (TrimSuffix line [CHR 0x0A]) e'))
             (Some e) ls = Some e'"
  shows "keeps_profile e e'"
  using assms
proof (induction ls arbitrary: e)
  case Nil
  then show ?case by (simp add: keeps_profile_refl)
next
  case (Cons l ls)
  show ?case
  proof (cases "editorInsertRow (int (length (row e))) (TrimSuffix l [CHR 0x0A]) e")
    case None
    with Cons.prems show ?thesis by (simp add: foldl_bind_None)
  next
    case (Some e1)
    with Cons.prems Cons.IH[of e1] have "keeps_profile e1 e'" by simp
    from keeps_profile_trans[OF editorInsertRow_keeps[OF Some] this] show ?thesis .
  qed
qed

lemma startup_inv:
  assumes "startup inplace arg = Some e"
  shows "profile_inv e"
proof (cases arg)
  case None
  with assms show ?thesis by (auto simp: startup_def initEditor_def profile_inv_def rows_indexed_def)
next
  case (Some a)
  obtain pth fl where a: "a = (pth, fl)" by (cases a)
  from assms Some a obtain e1 content e2 where
    e1: "editorSelectSyntaxHighlight inplace (initEditor\<lparr>filename := pth\<rparr>) = Some e1"
    and e2: "foldl (\<lambda>eo line. Option.bind eo
                    (\<lambda>e'. editorInsertRow (int (length (row e'))) (TrimSuffix line [CHR 0x0A]) e'))
             (Some e1) (Lines content) = Some e2"
    and e: "e = e2\<lparr>dirty := False\<rparr>"
    by (auto simp: startup_def editorOpen_def split: Option.bind_splits option.splits)
  from editorSelectSyntaxHighlight_fields[OF e1] have "profile_inv e1"
    by (auto simp: profile_inv_def initEditor_def rows_indexed_def)
  from keeps_profile_inv[OF this open_loop_keeps[OF e2]] e show ?thesis
    by (simp add: profile_inv_def)
qed

text \<open>\<^const>\<open>editorFind\<close>: what it marks it puts back.\<close>

lemma fill_Nil: "fill [] a b v = []"
  by (simp add: fill_def)

lemma copy_into_same: "length src = length dst \<Longrightarrow> copy_into dst src = src"
  by (simp add: copy_into_def)

lemma search_inv_plain:
  "search_inv e \<Longrightarrow> beforeSearchHighlights e = [] \<Longrightarrow> list_all row_plain (row e)"
  by (simp add: search_inv_def unmarked_def)

lemma plain_search_inv:
  "rows_indexed (row e) \<Longrightarrow> list_all row_plain (row e) \<Longrightarrow> beforeSearchHighlights e = []
     \<Longrightarrow> search_inv e"
  by (simp add: search_inv_def unmarked_def)

lemma clearSearchHighlight_fields:
  assumes "clearSearchHighlight e = Some e1"
  shows "syntax e1 = syntax e \<and> filename e1 = filename e \<and> beforeSearchHighlights e1 = []"
  using assms by (auto simp: clearSearchHighlight_def split: if_splits)

lemma clearSearchHighlight_inv:
  assumes "search_inv e" and "clearSearchHighlight e = Some e1"
  shows "rows_indexed (row e1) \<and> list_all row_plain (row e1)"
proof (cases "beforeSearchHighlights e = []")
  case True
  with assms show ?thesis by (simp add: clearSearchHighlight_def search_inv_def unmarked_def)
next
  case False
  let ?k = "nat (searchHighlightLine e)"
  from assms(1) False have k: "0 \<le> searchHighlightLine e"
    "searchHighlightLine e < int (length (row e))"
    "length (beforeSearchHighlights e) = length (highlight (row e ! ?k))"
    and i: "rows_indexed (row e)" and u: "list_all row_plain (unmarked e)"
    by (simp_all add: search_inv_def)
  from False have b: "0 < length (beforeSearchHighlights e)" by simp
  from k(1,2) have rp: "row_ptr e (searchHighlightLine e) = Some ?k" by (simp add: row_ptr_def)
  from assms(2) have "e1 = e\<lparr>row := (row e)[?k := (row e ! ?k)
                          \<lparr>highlight := copy_into (highlight (row e ! ?k))
                                           (beforeSearchHighlights e)\<rparr>],
                       beforeSearchHighlights := []\<rparr>"
    unfolding clearSearchHighlight_def using b rp by simp
  then have "row e1 = (row e)[?k := (row e ! ?k)
                          \<lparr>highlight := copy_into (highlight (row e ! ?k))
                                           (beforeSearchHighlights e)\<rparr>]"
    by simp
  with False have "row e1 = unmarked e"
    by (simp add: unmarked_def copy_into_same[OF k(3)])
  moreover have "rows_indexed (unmarked e)"
    using i by (simp add: unmarked_def rows_indexed_update)
  ultimately show ?thesis using u by simp
qed

lemma highlightSearchResult_fields:
  assumes "highlightSearchResult k q ix e = Some e'"
  shows "syntax e' = syntax e \<and> filename e' = filename e"
  using assms by (auto simp: highlightSearchResult_def Let_def split: if_splits)

lemma highlightSearchResult_inv:
  assumes "rows_indexed (row e)" and "list_all row_plain (row e)" and "k < length (row e)"
    and "highlightSearchResult k q ix e = Some e'"
  shows "search_inv e'"
proof -
  let ?r = "row e ! k"
  let ?m = "fill (highlight ?r) (nat ix) (nat ix + length q) highlightMatch"
  from assms(4) have e': "e' = e\<lparr>searchHighlightLine := idx ?r,
      beforeSearchHighlights := highlight ?r, row := (row e)[k := ?r\<lparr>highlight := ?m\<rparr>]\<rparr>"
    by (auto simp: highlightSearchResult_def Let_def split: if_splits)
  from assms(1,3) have ik: "idx ?r = int k" by (simp add: rows_indexed_nth)
  have i: "rows_indexed (row e')" unfolding e' using assms(1) by (simp add: rows_indexed_update)
  have u: "unmarked e' = row e"
  proof (cases "highlight ?r = []")
    case True
    then have "?r\<lparr>highlight := ?m\<rparr> = ?r" by (simp add: fill_Nil)
    with True show ?thesis unfolding e' by (simp add: unmarked_def)
  next
    case False
    with assms(3) ik show ?thesis unfolding e' by (simp add: unmarked_def)
  qed
  from assms(3) ik have "beforeSearchHighlights e' \<noteq> [] \<longrightarrow>
      0 \<le> searchHighlightLine e' \<and> searchHighlightLine e' < int (length (row e'))
      \<and> length (beforeSearchHighlights e')
          = length (highlight (row e' ! nat (searchHighlightLine e')))"
    unfolding e' by simp
  with i u assms(2) show ?thesis by (simp add: search_inv_def)
qed

lemma row_at_Some: "row_at xs k = Some r \<Longrightarrow> nat k < length xs"
  by (auto simp: row_at_def split: if_splits)

lemma find_loop_shape:
  assumes "find_loop n cur q e = Some e'"
  shows "e' = e \<or> (\<exists>k ix e0. k < length (row e) \<and> row e0 = row e \<and> syntax e0 = syntax e
                      \<and> filename e0 = filename e \<and> highlightSearchResult k q ix e0 = Some e')"
  using assms
proof (induction n arbitrary: cur)
  case 0
  then show ?case by simp
next
  case (Suc n)
  let ?cur1 = "if searchForward e then cur + 1 else cur - 1"
  let ?cur2 = "if ?cur1 = - 1 then int (length (row e)) - 1
               else if ?cur1 = int (length (row e)) then 0 else ?cur1"
  from Suc.prems obtain r where r: "row_at (row e) ?cur2 = Some r"
    by (cases "row_at (row e) ?cur2") (simp_all add: Let_def)
  then have k: "nat ?cur2 < length (row e)" by (rule row_at_Some)
  show ?case
  proof (cases "0 \<le> Index (render r) q")
    case True
    let ?e0 = "e\<lparr>lastMatchLine := ?cur2, cy := ?cur2,
                  cx := editorRowRxToCx r (Index (render r) q),
                  rowOffset := int (length (row e))\<rparr>"
    from Suc.prems r True
    have "highlightSearchResult (nat ?cur2) q (Index (render r) q) ?e0 = Some e'"
      by (simp add: Let_def)
    moreover have "row ?e0 = row e" "syntax ?e0 = syntax e" "filename ?e0 = filename e"
      by simp_all
    ultimately show ?thesis using k by blast
  next
    case False
    with Suc.prems r have "find_loop n ?cur2 q e = Some e'" by (simp add: Let_def)
    from Suc.IH[OF this] show ?thesis .
  qed
qed

lemma editorFindCallback_inv:
  assumes "editorFindCallback q key e = Some e'"
  shows "syntax e' = syntax e \<and> filename e' = filename e
         \<and> (search_inv e \<longrightarrow> search_inv e')
         \<and> (key = 13 \<or> key = 27 \<longrightarrow> beforeSearchHighlights e' = [])"
proof -
  from assms obtain e1 where e1: "clearSearchHighlight e = Some e1"
    by (auto simp: editorFindCallback_def split: Option.bind_splits)
  note f = clearSearchHighlight_fields[OF e1]
  show ?thesis
  proof (cases "key = 13 \<or> key = 27")
    case True
    with assms e1 have e': "e' = e1\<lparr>lastMatchLine := - 1, searchForward := True\<rparr>"
      by (auto simp: editorFindCallback_def)
    have "search_inv e'" if "search_inv e"
      using clearSearchHighlight_inv[OF that e1] f unfolding e'
      by (simp add: search_inv_def unmarked_def)
    with f True show ?thesis unfolding e' by simp
  next
    case False
    let ?e2 = "if key = arrowRight \<or> key = arrowDown then e1\<lparr>searchForward := True\<rparr>
               else if key = arrowLeft \<or> key = arrowUp then e1\<lparr>searchForward := False\<rparr>
               else e1\<lparr>lastMatchLine := - 1, searchForward := True\<rparr>"
    let ?e3 = "if lastMatchLine ?e2 = - 1 then ?e2\<lparr>searchForward := True\<rparr> else ?e2"
    have g: "row ?e3 = row e1" "syntax ?e3 = syntax e1" "filename ?e3 = filename e1"
      "beforeSearchHighlights ?e3 = beforeSearchHighlights e1"
      by simp_all
    from assms e1 False have "find_loop (length (row ?e3)) (lastMatchLine ?e3) q ?e3 = Some e'"
      unfolding editorFindCallback_def Let_def by simp
    from find_loop_shape[OF this]
    consider "e' = ?e3"
      | k ix e0 where "k < length (row ?e3)" "row e0 = row ?e3" "syntax e0 = syntax ?e3"
          "filename e0 = filename ?e3" "highlightSearchResult k q ix e0 = Some e'"
      by blast
    then show ?thesis
    proof cases
      case 1
      have "search_inv e'" if "search_inv e"
      proof -
        from clearSearchHighlight_inv[OF that e1] f g
        have "rows_indexed (row ?e3)" "list_all row_plain (row ?e3)"
          "beforeSearchHighlights ?e3 = []" by simp_all
        then show ?thesis unfolding 1 by (rule plain_search_inv)
      qed
      moreover have "syntax e' = syntax e" "filename e' = filename e"
        unfolding 1 using f g by simp_all
      ultimately show ?thesis using False by simp
    next
      case 2
      have "search_inv e'" if "search_inv e"
      proof -
        from clearSearchHighlight_inv[OF that e1] g 2(1,2)
        have "rows_indexed (row e0)" "list_all row_plain (row e0)" "k < length (row e0)"
          by simp_all
        from highlightSearchResult_inv[OF this 2(5)] show ?thesis .
      qed
      moreover from highlightSearchResult_fields[OF 2(5)] 2(3,4) f g
      have "syntax e' = syntax e" "filename e' = filename e" by simp_all
      ultimately show ?thesis using False by simp
    qed
  qed
qed

lemma find_calls_inv:
  assumes "foldl (\<lambda>eo c. Option.bind eo (editorFindCallback (fst c) (snd c))) (Some e) calls
           = Some e'"
  shows "syntax e' = syntax e \<and> filename e' = filename e \<and> (search_inv e \<longrightarrow> search_inv e')"
  using assms
proof (induction calls arbitrary: e)
  case Nil
  then show ?case by simp
next
  case (Cons c calls)
  show ?case
  proof (cases "editorFindCallback (fst c) (snd c) e")
    case None
    with Cons.prems show ?thesis by (simp add: foldl_bind_None)
  next
    case (Some e1)
    with Cons.prems Cons.IH[of e1] editorFindCallback_inv[OF Some] show ?thesis by auto
  qed
qed

lemma editorFind_inv:
  assumes "profile_inv e" and "editorFind calls q entered e = Some e'"
  shows "profile_inv e' \<and> syntax e' = syntax e"
proof -
  from assms(2) obtain e1 e2 where
    e1: "foldl (\<lambda>eo c. Option.bind eo (editorFindCallback (fst c) (snd c))) (Some e) calls
         = Some e1"
    and e2: "editorFindCallback q (if entered then 13 else 27) e1 = Some e2"
    and e': "e' = (if (if entered then q else []) = []
                   then e2\<lparr>cx := cx e, cy := cy e, rowOffset := rowOffset e\<rparr> else e2)"
    by (auto simp: editorFind_def split: Option.bind_splits)
  note a = find_calls_inv[OF e1] and b = editorFindCallback_inv[OF e2]
  from b have n: "beforeSearchHighlights e2 = []" by (cases entered) simp_all
  have f: "syntax e2 = syntax e" "filename e2 = filename e" using a b by simp_all
  have "list_all row_plain (row e2) \<and> rows_indexed (row e2)" if "syntax e = None"
  proof -
    from assms(1) that have "search_inv e" by (simp add: profile_inv_def plain_search_inv)
    with a b have s: "search_inv e2" by simp
    from search_inv_plain[OF s n] s show ?thesis by (simp add: search_inv_def)
  qed
  with assms(1) f n have "profile_inv e2" by (simp add: profile_inv_def)
  with f show ?thesis unfolding e' by (simp add: profile_inv_def)
qed

text \<open>The sessions.\<close>

lemma editorMoveCursor_keeps:
  assumes "editorMoveCursor key e = Some e'"
  shows "keeps_profile e e'"
proof -
  from assms obtain line e1 where e1: "cursor_switch key line e = Some e1"
    and e': "cursor_clamp e1 = Some e'"
    by (auto simp: editorMoveCursor_def split: Option.bind_splits)
  from e1 have "keeps_profile e e1"
    by (auto simp: cursor_switch_def keeps_profile_def split: if_splits)
  moreover from e' have "keeps_profile e1 e'"
    by (auto simp: cursor_clamp_def keeps_profile_def split: if_splits)
  ultimately show ?thesis by (rule keeps_profile_trans)
qed

lemma session_inv:
  assumes "session inplace cs e = Some e'" and "profile_inv e"
  shows "profile_inv e' \<and> (syntax e \<noteq> None \<longrightarrow> syntax e' = syntax e)"
  using assms
proof (induction cs arbitrary: e)
  case Nil
  then show ?case by simp
next
  case (Cons c cs)
  from Cons.prems(1) obtain e1 where c: "perform inplace c e = Some e1"
    and r: "session inplace cs e1 = Some e'"
    by (auto split: Option.bind_splits)
  have "profile_inv e1 \<and> (syntax e \<noteq> None \<longrightarrow> syntax e1 = syntax e)"
  proof (cases c)
    case (Mutate m)
    with c have "keeps_profile e e1" by (simp add: mutate_keeps)
    with keeps_profile_inv[OF Cons.prems(2)] show ?thesis by (simp add: keeps_profile_def)
  next
    case (Save answer written)
    with c editorSave_inv[OF Cons.prems(2)] show ?thesis by simp
  next
    case (Find calls q entered)
    with c editorFind_inv[OF Cons.prems(2)] show ?thesis by simp
  next
    case (Move key)
    with c have "keeps_profile e e1" by (simp add: editorMoveCursor_keeps)
    with keeps_profile_inv[OF Cons.prems(2)] show ?thesis by (simp add: keeps_profile_def)
  next
    case (Cursor x y off)
    with c Cons.prems(2) show ?thesis by (auto simp: profile_inv_def)
  qed
  with Cons.IH[OF r] show ?case by auto
qed

text \<open>
  C4. The editor starts, with or without a file, and then changes the document, saves,
  searches and moves the cursor, in any order. In every state it reaches with no
  profile selected, every row has the rendered text of its raw text, as many tags as
  rendered characters, and only normal tags, in the slice and behind it; and the
  recomputation of any row, \<^const>\<open>editorUpdateRow\<close>, returns and leaves the state as it
  is. A state with a profile keeps its profile whatever follows: the profile is
  assigned at the start and at the first save of a document without a file name, and
  never after. So with no profile selected no row was ever tagged under a profile.
\<close>

theorem C4_no_profile_tags_normal:
  assumes "startup inplace arg = Some e0" and "session inplace cs e0 = Some e1"
    and "session inplace cs' e1 = Some e2"
  shows "(syntax e1 = None \<longrightarrow>
            list_all row_plain (row e1)
            \<and> (\<forall>p < length (row e1). editorUpdateRow p e1 = Some e1))
         \<and> (syntax e1 \<noteq> None \<longrightarrow> syntax e2 = syntax e1)"
proof -
  from session_inv[OF assms(2) startup_inv[OF assms(1)]] have i: "profile_inv e1" by simp
  from session_inv[OF assms(3) i] have "syntax e1 \<noteq> None \<longrightarrow> syntax e2 = syntax e1" by simp
  moreover from i have "syntax e1 = None \<longrightarrow> list_all row_plain (row e1)"
    by (simp add: profile_inv_def)
  ultimately show ?thesis using editorUpdateRow_plain_state by blast
qed

theorem C4_no_profile_tags_normal_witness:
  "(case plain_session of
      None \<Rightarrow> False
    | Some e1 \<Rightarrow>
        syntax e1 = None
        \<and> map raw (row e1) = [''i'', ''f'']
        \<and> map highlight (row e1) = [[highlightNormal], [highlightNormal]]
        \<and> map highlight_spare (row e1) = [[highlightNormal], []]
        \<and> list_all row_plain (row e1)
        \<and> editorUpdateRow 0 e1 = Some e1)
   \<and> (case go_session of
        None \<Rightarrow> False
      | Some e1 \<Rightarrow>
          map_option fileType (syntax e1) = Some ''go''
          \<and> (case session (\<lambda>r. False) [Mutate (InsertChar 32)] e1 of
                None \<Rightarrow> False
              | Some e2 \<Rightarrow> map_option fileType (syntax e2) = Some ''go''))"
proof -
  have s: "startup (\<lambda>r. False) None = Some initEditor" by (simp add: startup_def)
  have p: "(case plain_session of
              None \<Rightarrow> False
            | Some e1 \<Rightarrow>
                syntax e1 = None \<and> length (row e1) = 2
                \<and> map raw (row e1) = [''i'', ''f'']
                \<and> map highlight (row e1) = [[highlightNormal], [highlightNormal]]
                \<and> map highlight_spare (row e1) = [[highlightNormal], []])"
    by code_simp
  then obtain e1 where e1: "plain_session = Some e1" by (cases plain_session) simp_all
  from p have p1: "syntax e1 = None" "length (row e1) = 2"
    "map raw (row e1) = [''i'', ''f'']"
    "map highlight (row e1) = [[highlightNormal], [highlightNormal]]"
    "map highlight_spare (row e1) = [[highlightNormal], []]"
    unfolding e1 by simp_all
  have n: "session (\<lambda>r. False) [] e1 = Some e1" by simp
  from C4_no_profile_tags_normal[OF s e1[unfolded plain_session_def] n] p1(1,2)
  have a: "list_all row_plain (row e1)" "editorUpdateRow 0 e1 = Some e1" by simp_all
  have g: "(case go_session of
              None \<Rightarrow> False
            | Some e1 \<Rightarrow>
                map_option fileType (syntax e1) = Some ''go''
                \<and> (case session (\<lambda>r. False) [Mutate (InsertChar 32)] e1 of
                      None \<Rightarrow> False
                    | Some e2 \<Rightarrow> True))"
    by code_simp
  then obtain g1 where g1: "go_session = Some g1" by (cases go_session) simp_all
  from g have g1s: "map_option fileType (syntax g1) = Some ''go''"
    and "session (\<lambda>r. False) [Mutate (InsertChar 32)] g1 \<noteq> None"
    unfolding g1 by (simp_all split: option.splits)
  then obtain g2 where g2: "session (\<lambda>r. False) [Mutate (InsertChar 32)] g1 = Some g2" by blast
  from C4_no_profile_tags_normal[OF s g1[unfolded go_session_def] g2] g1s
  have "syntax g2 = syntax g1" by auto
  with g1s have b: "map_option fileType (syntax g2) = Some ''go''" by simp
  show ?thesis unfolding e1 g1 option.case g2 using a p1 b g1s by simp
qed

end
